theory Spec2Isabelle
  imports Complex_Main
begin

section \<open>Vehicle road-rule behaviour analyzer: time codec, violation detector, report builder\<close>

text \<open>
  A shallow embedding of \<^verbatim>\<open>rules.py\<close> (\<^verbatim>\<open>_fmt_time\<close>, \<^verbatim>\<open>detect_violations\<close>),
  \<^verbatim>\<open>parser.py\<close> (\<^verbatim>\<open>parse_time\<close>) and \<^verbatim>\<open>report.py\<close> (\<^verbatim>\<open>make_report\<close>).

  Numbers. Python's \<^verbatim>\<open>float\<close> values are modelled as exact rationals (\<^typ>\<open>rat\<close>):
  comparisons, \<^verbatim>\<open>+\<close>, \<^verbatim>\<open>-\<close>, \<^verbatim>\<open>*\<close> and floor division are the exact ones, and
  formatting to a fixed number of decimals rounds the exact value half-to-even. Binary
  rounding error, the negative zero, infinities and NaN are outside this model.
  Python's \<^verbatim>\<open>int\<close> is \<^typ>\<open>int\<close>.

  Where a property depends on the arithmetic, it is stated within the range on which
  the exact operations are those of the doubles (integers and sort keys below \<open>2^53\<close>),
  or with the rounding error as a tolerance.

  Strings are \<^typ>\<open>string\<close>; a character is a code point below 256.
\<close>

subsection \<open>Characters and whitespace\<close>

definition is_digit :: "char \<Rightarrow> bool" where
  "is_digit c \<longleftrightarrow> 48 \<le> (of_char c :: nat) \<and> (of_char c :: nat) \<le> 57"

definition digit_val :: "char \<Rightarrow> nat" where
  "digit_val c = (of_char c :: nat) - 48"

definition digit_char :: "nat \<Rightarrow> char" where
  "digit_char d = char_of (48 + d)"

text \<open>
  \<^verbatim>\<open>str.isspace\<close> on the code points below 256: tab, line feed, vertical tab, form feed,
  carriage return, the four separators 28..31, space, NEL (133) and the no-break space
  (160). \<^verbatim>\<open>str.strip()\<close> removes these from both ends.
\<close>

definition is_space :: "char \<Rightarrow> bool" where
  "is_space c \<longleftrightarrow> (let n = (of_char c :: nat) in
     (9 \<le> n \<and> n \<le> 13) \<or> (28 \<le> n \<and> n \<le> 32) \<or> n = 133 \<or> n = 160)"

definition strip :: "string \<Rightarrow> string" where
  "strip s = rev (dropWhile is_space (rev (dropWhile is_space s)))"

text \<open>\<^verbatim>\<open>s.replace(c, "")\<close> for a one-character \<^verbatim>\<open>c\<close>: every occurrence is removed.\<close>

definition remove_char :: "char \<Rightarrow> string \<Rightarrow> string" where
  "remove_char c s = filter (\<lambda>x. x \<noteq> c) s"

text \<open>\<^verbatim>\<open>s.split(c)\<close> for a one-character separator: the pieces between the occurrences.\<close>

fun split_on :: "char \<Rightarrow> string \<Rightarrow> string list" where
  "split_on c [] = [[]]"
| "split_on c (x # xs) =
     (if x = c then [] # split_on c xs
      else (case split_on c xs of p # ps \<Rightarrow> (x # p) # ps | [] \<Rightarrow> [[x]]))"

subsection \<open>Reading numbers: \<^verbatim>\<open>int(s)\<close> and \<^verbatim>\<open>float(s)\<close>\<close>

definition nat_of_digits :: "string \<Rightarrow> nat" where
  "nat_of_digits ds = foldl (\<lambda>acc c. 10 * acc + digit_val c) 0 ds"

text \<open>
  An optional sign in front of the digits, as \<^verbatim>\<open>int\<close> and \<^verbatim>\<open>float\<close> both accept:
  the result is (negative?, rest).
\<close>

fun split_sign :: "string \<Rightarrow> bool \<times> string" where
  "split_sign [] = (False, [])"
| "split_sign (c # cs) =
     (if c = CHR ''-'' then (True, cs)
      else if c = CHR ''+'' then (False, cs)
      else (False, c # cs))"

text \<open>
  The whitespace that \<^verbatim>\<open>int\<close> and \<^verbatim>\<open>float\<close> skip at both ends of their argument:
  tab to carriage return, space, NEL (133) and the no-break space (160). Unlike
  \<^verbatim>\<open>str.strip()\<close> they do not skip the separators 28..31.
\<close>

definition is_num_space :: "char \<Rightarrow> bool" where
  "is_num_space c \<longleftrightarrow> (let n = (of_char c :: nat) in
     (9 \<le> n \<and> n \<le> 13) \<or> n = 32 \<or> n = 133 \<or> n = 160)"

definition num_strip :: "string \<Rightarrow> string" where
  "num_strip s = rev (dropWhile is_num_space (rev (dropWhile is_num_space s)))"

text \<open>
  A run of digits as both accept it: digits, with single underscores allowed between
  two digits (\<^verbatim>\<open>"1_000"\<close>). Its value is that of its digits.
\<close>

fun no_double_underscore :: "string \<Rightarrow> bool" where
  "no_double_underscore (a # b # cs) =
     (\<not> (a = CHR ''_'' \<and> b = CHR ''_'') \<and> no_double_underscore (b # cs))"
| "no_double_underscore cs = True"

definition digit_run :: "string \<Rightarrow> bool" where
  "digit_run s \<longleftrightarrow>
     s \<noteq> [] \<and> is_digit (hd s) \<and> is_digit (last s)
     \<and> list_all (\<lambda>c. is_digit c \<or> c = CHR ''_'') s \<and> no_double_underscore s"

definition run_value :: "string \<Rightarrow> nat" where
  "run_value s = nat_of_digits (filter is_digit s)"

text \<open>
  \<^verbatim>\<open>int(s)\<close>: surrounding whitespace is skipped, then an optional sign and a run of
  digits. \<open>None\<close> is Python's \<^verbatim>\<open>ValueError\<close>. (The limit that recent Python versions
  put on the number of digits, 4300 by default, is not modelled.)
\<close>

definition py_int :: "string \<Rightarrow> int option" where
  "py_int s =
     (case split_sign (num_strip s) of (neg, body) \<Rightarrow>
        if digit_run body
        then Some ((if neg then - 1 else 1) * int (run_value body))
        else None)"

text \<open>
  \<^verbatim>\<open>float(s)\<close> on decimal numerals: surrounding whitespace is skipped, then an optional
  sign, a run of digits, and optionally a point followed by a run of digits, with at
  least one digit in all (\<^verbatim>\<open>"5"\<close>, \<^verbatim>\<open>"5."\<close>, \<^verbatim>\<open>".5"\<close>, \<^verbatim>\<open>"-2.50"\<close>, \<^verbatim>\<open>"1_0.5"\<close>).
  \<open>None\<close> is Python's \<^verbatim>\<open>ValueError\<close>.

  Two things are not modelled. The numerals with letters, that is exponents
  (\<^verbatim>\<open>"1e3"\<close>), \<^verbatim>\<open>inf\<close>, \<^verbatim>\<open>infinity\<close> and \<^verbatim>\<open>nan\<close>, are read as an error here, while
  \<^verbatim>\<open>float\<close> accepts them. And the result is the exact value of the numeral, where
  \<^verbatim>\<open>float\<close> returns the double nearest to it (and \<^verbatim>\<open>inf\<close> or \<^verbatim>\<open>0.0\<close> beyond the range of
  the doubles).
\<close>

definition py_float :: "string \<Rightarrow> rat option" where
  "py_float s =
     (case split_sign (num_strip s) of (neg, body) \<Rightarrow>
        (let ip = takeWhile (\<lambda>c. is_digit c \<or> c = CHR ''_'') body;
             rest = dropWhile (\<lambda>c. is_digit c \<or> c = CHR ''_'') body;
             sg = (if neg then - 1 else 1 :: rat)
         in case rest of
              [] \<Rightarrow> if digit_run ip then Some (sg * of_nat (run_value ip)) else None
            | c # fp \<Rightarrow>
                if c = CHR ''.'' \<and> (ip = [] \<or> digit_run ip) \<and> (fp = [] \<or> digit_run fp)
                   \<and> (ip \<noteq> [] \<or> fp \<noteq> [])
                then Some (sg * (of_nat (run_value ip)
                                 + of_nat (run_value fp) / 10 ^ length (filter is_digit fp)))
                else None))"

subsection \<open>Writing numbers: the format specifications the code uses\<close>

fun digits_of :: "nat \<Rightarrow> string" where
  "digits_of n = (if n < 10 then [digit_char n] else digits_of (n div 10) @ [digit_char (n mod 10)])"

declare digits_of.simps [simp del]

text \<open>\<^verbatim>\<open>f"{m:d}"\<close>: a minus sign for a negative integer, then the decimal digits.\<close>

definition fmt_d :: "int \<Rightarrow> string" where
  "fmt_d m = (if m < 0 then CHR ''-'' # digits_of (nat (- m)) else digits_of (nat m))"

text \<open>
  The \<^verbatim>\<open>0\<close> flag with a width: zeros are inserted after the sign until the text is
  \<open>w\<close> characters wide; a text that is already as wide is left alone.
\<close>

definition zero_pad :: "nat \<Rightarrow> string \<Rightarrow> string" where
  "zero_pad w s =
     (case s of
        c # r \<Rightarrow> if c = CHR ''-'' then c # replicate (w - length s) (CHR ''0'') @ r
                 else replicate (w - length s) (CHR ''0'') @ s
      | [] \<Rightarrow> replicate w (CHR ''0''))"

definition round_half_even :: "rat \<Rightarrow> int" where
  "round_half_even x =
     (let f = \<lfloor>x\<rfloor>; d = x - of_int f
      in if d < 1 / 2 then f else if 1 / 2 < d then f + 1 else if even f then f else f + 1)"

text \<open>
  \<^verbatim>\<open>f"{x:.pf}"\<close>: the magnitude rounded to \<open>p\<close> decimals, a minus sign when \<open>x\<close> is
  negative, the integer digits, and for \<open>p > 0\<close> a point and exactly \<open>p\<close> decimals.
\<close>

definition fmt_f :: "nat \<Rightarrow> rat \<Rightarrow> string" where
  "fmt_f p x =
     (let n = nat (round_half_even (\<bar>x\<bar> * 10 ^ p));
          ip = n div 10 ^ p; fp = n mod 10 ^ p
      in (if x < 0 then [CHR ''-''] else [])
         @ digits_of ip
         @ (if p = 0 then [] else CHR ''.'' # zero_pad p (digits_of fp)))"

subsection \<open>Time codec\<close>

text \<open>
  \<^verbatim>\<open>_fmt_time\<close> (rules.py): \<^verbatim>\<open>m = int(t // 60)\<close>, \<^verbatim>\<open>s = t - m * 60\<close>,
  \<^verbatim>\<open>f"{m:02d}:{s:04.1f}"\<close>. For a double \<open>t\<close> with \<open>0 \<le> t < 2^53\<close> the floor division
  and the subtraction of the code are exact, and this is the text the code writes;
  for larger \<open>t\<close> they round, and for \<^verbatim>\<open>-0.0\<close> the code writes \<^verbatim>\<open>"00:-0.0"\<close>.
\<close>

definition fmt_time :: "rat \<Rightarrow> string" where
  "fmt_time t =
     (let m = \<lfloor>t / 60\<rfloor>; s = t - of_int m * 60
      in zero_pad 2 (fmt_d m) @ CHR '':'' # zero_pad 4 (fmt_f 1 s))"

datatype error =
    FormatError string        \<comment> \<open>\<^verbatim>\<open>ValueError("bad timestamp: ...")\<close> of \<^verbatim>\<open>parse_time\<close>\<close>
  | UnknownEventKind string   \<comment> \<open>\<^verbatim>\<open>ValueError("unknown kind: ...")\<close> of \<^verbatim>\<open>detect_violations\<close>\<close>
  | ParseError string         \<comment> \<open>\<^verbatim>\<open>ValueError\<close> raised by \<^verbatim>\<open>float(...)\<close> on this text\<close>
  | KeyError string           \<comment> \<open>a missing dictionary key\<close>

text \<open>
  Adding an \<^verbatim>\<open>int\<close> to a \<^verbatim>\<open>float\<close> converts the \<^verbatim>\<open>int\<close> first, and the conversion raises
  \<^verbatim>\<open>OverflowError\<close> when the integer, rounded to 53 bits, is beyond the largest double.
\<close>

definition float_overflow :: "int \<Rightarrow> bool" where
  "float_overflow n \<longleftrightarrow> 2 ^ 1024 - 2 ^ 970 \<le> \<bar>n\<bar>"

text \<open>
  \<^verbatim>\<open>parse_time\<close> (parser.py): split at the colons; anything but two parts, a part that
  \<^verbatim>\<open>int\<close> / \<^verbatim>\<open>float\<close> rejects, or minutes too large for the float addition, ends in
  the \<^verbatim>\<open>except\<close> branch, which raises \<^verbatim>\<open>ValueError\<close>. The sum is the exact one here; the
  code's is rounded to a double.
\<close>

definition parse_time :: "string \<Rightarrow> error + rat" where
  "parse_time ts =
     (case split_on (CHR '':'') ts of
        [minutes, seconds] \<Rightarrow>
          (case py_int minutes of
             None \<Rightarrow> Inl (FormatError ts)
           | Some m \<Rightarrow>
               (case py_float seconds of
                  None \<Rightarrow> Inl (FormatError ts)
                | Some s \<Rightarrow>
                    if float_overflow (m * 60) then Inl (FormatError ts)
                    else Inr (of_int m * 60 + s)))
      | _ \<Rightarrow> Inl (FormatError ts))"

subsection \<open>Scenario, events, violations\<close>

text \<open>
  The scenario is a dictionary read from JSON. The code reads two of its keys:
  \<^verbatim>\<open>"name"\<close> (report.py) and \<^verbatim>\<open>"road_rules"\<close> (rules.py), whose three entries are
  "float-like". A key that is missing is \<open>None\<close> here. A name is JSON's null, a boolean,
  an integer or a string; a threshold is an integer, a float or a numeric string.
\<close>

datatype py_val = PNone | PBool bool | PInt int | PStr string

datatype num_val = NInt int | NFloat rat | NStr string

record scenario =
  name :: "py_val option"
  road_rules :: "(string \<times> num_val) list option"

type_synonym event = "rat \<times> string \<times> string"

record violation =
  vtype :: string
  vtime :: string
  details :: string

record road_rule_values =
  max_speed :: rat
  min_follow :: rat
  stop_wait :: rat

text \<open>\<^verbatim>\<open>float(x)\<close> on a threshold value.\<close>

fun float_of :: "num_val \<Rightarrow> error + rat" where
  "float_of (NInt n) = Inr (of_int n)"
| "float_of (NFloat x) = Inr x"
| "float_of (NStr s) = (case py_float s of None \<Rightarrow> Inl (ParseError s) | Some x \<Rightarrow> Inr x)"

text \<open>\<^verbatim>\<open>float(scenario["road_rules"][k])\<close>.\<close>

definition rule_value :: "scenario \<Rightarrow> string \<Rightarrow> error + rat" where
  "rule_value sc k =
     (case road_rules sc of
        None \<Rightarrow> Inl (KeyError ''road_rules'')
      | Some rr \<Rightarrow> (case map_of rr k of None \<Rightarrow> Inl (KeyError k) | Some v \<Rightarrow> float_of v))"

text \<open>Lines 49 to 51 of rules.py, in their order.\<close>

definition read_rules :: "scenario \<Rightarrow> error + road_rule_values" where
  "read_rules sc =
     (case rule_value sc ''max_speed'' of
        Inl e \<Rightarrow> Inl e
      | Inr ms \<Rightarrow>
          (case rule_value sc ''min_follow_distance'' of
             Inl e \<Rightarrow> Inl e
           | Inr mf \<Rightarrow>
               (case rule_value sc ''stop_sign_wait'' of
                  Inl e \<Rightarrow> Inl e
                | Inr sw \<Rightarrow> Inr \<lparr>max_speed = ms, min_follow = mf, stop_wait = sw\<rparr>)))"

subsection \<open>The violation detector\<close>

text \<open>The local variables of \<^verbatim>\<open>detect_violations\<close> that the loop updates.\<close>

record det_state =
  last_follow :: "rat option"
  stop_detect_time :: "rat option"
  violations :: "violation list"

definition init_state :: det_state where
  "init_state = \<lparr>last_follow = None, stop_detect_time = None, violations = []\<rparr>"

definition append_violation :: "violation \<Rightarrow> det_state \<Rightarrow> det_state" where
  "append_violation v st = st\<lparr>violations := violations st @ [v]\<rparr>"

definition speeding :: "road_rule_values \<Rightarrow> rat \<Rightarrow> rat \<Rightarrow> violation" where
  "speeding r t speed =
     \<lparr>vtype = ''SPEEDING'', vtime = fmt_time t,
      details = fmt_f 1 speed @ '' mph in '' @ fmt_f 0 (max_speed r) @ '' mph zone''\<rparr>"

definition rolling_stop :: "road_rule_values \<Rightarrow> rat \<Rightarrow> rat \<Rightarrow> violation" where
  "rolling_stop r t waited =
     \<lparr>vtype = ''ROLLING_STOP'', vtime = fmt_time t,
      details = ''Stopped '' @ fmt_f 1 waited @ ''s; required '' @ fmt_f 1 (stop_wait r) @ ''s''\<rparr>"

definition tailgating :: "road_rule_values \<Rightarrow> rat \<Rightarrow> rat \<Rightarrow> violation" where
  "tailgating r t fdist =
     \<lparr>vtype = ''TAILGATING'', vtime = fmt_time t,
      details = fmt_f 1 fdist @ '' m < '' @ fmt_f 1 (min_follow r) @ '' m''\<rparr>"

definition unsafe_lane_change :: "road_rule_values \<Rightarrow> rat \<Rightarrow> rat \<Rightarrow> violation" where
  "unsafe_lane_change r t lf =
     \<lparr>vtype = ''UNSAFE_LANE_CHANGE'', vtime = fmt_time t,
      details = ''follow '' @ fmt_f 1 lf @ '' m < '' @ fmt_f 1 (min_follow r) @ '' m''\<rparr>"

text \<open>The second \<^verbatim>\<open>if\<close> of the \<^verbatim>\<open>SPEED\<close> branch (lines 65 to 71).\<close>

definition check_rolling_stop :: "road_rule_values \<Rightarrow> rat \<Rightarrow> rat \<Rightarrow> det_state \<Rightarrow> det_state" where
  "check_rolling_stop r t speed st =
     (case stop_detect_time st of
        None \<Rightarrow> st
      | Some t0 \<Rightarrow>
          if 1 < speed \<and> t0 < t
          then (let waited = t - t0;
                    st1 = (if waited < stop_wait r
                           then append_violation (rolling_stop r t waited) st else st)
                in st1\<lparr>stop_detect_time := None\<rparr>)
          else st)"

text \<open>One iteration of the loop (lines 58 to 90).\<close>

definition process_event :: "road_rule_values \<Rightarrow> det_state \<Rightarrow> event \<Rightarrow> error + det_state" where
  "process_event r st e =
     (case e of (t, kind, arg) \<Rightarrow>
        if kind = ''SPEED'' then
          (case py_float arg of
             None \<Rightarrow> Inl (ParseError arg)
           | Some speed \<Rightarrow>
               Inr (check_rolling_stop r t speed
                      (if max_speed r < speed then append_violation (speeding r t speed) st
                       else st)))
        else if kind = ''FOLLOW_DISTANCE'' then
          (case py_float arg of
             None \<Rightarrow> Inl (ParseError arg)
           | Some fdist \<Rightarrow>
               (let st1 = st\<lparr>last_follow := Some fdist\<rparr>
                in Inr (if fdist < min_follow r then append_violation (tailgating r t fdist) st1
                        else st1)))
        else if kind = ''LANE_CHANGE'' then
          (case last_follow st of
             None \<Rightarrow> Inr st
           | Some lf \<Rightarrow>
               Inr (if lf < min_follow r then append_violation (unsafe_lane_change r t lf) st
                    else st))
        else if kind = ''STOP_SIGN_DETECTED'' then
          Inr (st\<lparr>stop_detect_time := Some t\<rparr>)
        else Inl (UnknownEventKind kind))"

fun run_events :: "road_rule_values \<Rightarrow> det_state \<Rightarrow> event list \<Rightarrow> error + det_state" where
  "run_events r st [] = Inr st"
| "run_events r st (e # es) =
     (case process_event r st e of Inl err \<Rightarrow> Inl err | Inr st' \<Rightarrow> run_events r st' es)"

text \<open>
  The key of the final sort (line 92): the formatted time without its colon and point,
  read by \<^verbatim>\<open>float\<close>.
\<close>

definition sort_surrogate :: "violation \<Rightarrow> rat option" where
  "sort_surrogate v = py_float (remove_char (CHR ''.'') (remove_char (CHR '':'') (vtime v)))"

text \<open>
  \<^verbatim>\<open>list.sort(key=...)\<close>: the key of every element is computed first (a key that raises
  aborts the sort), then the elements are sorted by their keys, stably.
\<close>

definition sort_violations :: "violation list \<Rightarrow> error + violation list" where
  "sort_violations vs =
     (case those (map sort_surrogate vs) of
        None \<Rightarrow> Inl (ParseError ''sort key'')
      | Some ks \<Rightarrow> Inr (map snd (sort_key fst (zip ks vs))))"

definition detect_violations :: "scenario \<Rightarrow> event list \<Rightarrow> error + violation list" where
  "detect_violations sc events =
     (case read_rules sc of
        Inl e \<Rightarrow> Inl e
      | Inr r \<Rightarrow>
          (case run_events r init_state events of
             Inl e \<Rightarrow> Inl e
           | Inr st \<Rightarrow> sort_violations (violations st)))"

subsection \<open>The report builder\<close>

text \<open>Truthiness and \<^verbatim>\<open>str()\<close> of a name value.\<close>

fun py_truthy :: "py_val \<Rightarrow> bool" where
  "py_truthy PNone = False"
| "py_truthy (PBool b) = b"
| "py_truthy (PInt n) = (n \<noteq> 0)"
| "py_truthy (PStr s) = (s \<noteq> [])"

fun py_str :: "py_val \<Rightarrow> string" where
  "py_str PNone = ''None''"
| "py_str (PBool b) = (if b then ''True'' else ''False'')"
| "py_str (PInt n) = fmt_d n"
| "py_str (PStr s) = s"

record report =
  rep_scenario :: string
  rep_violations :: "violation list"
  total_violations :: nat

text \<open>
  \<^verbatim>\<open>make_report\<close> (report.py). The scenario argument may be \<^verbatim>\<open>None\<close>;
  \<^verbatim>\<open>scenario.get("name")\<close> is \<^verbatim>\<open>None\<close> when the key is missing.
\<close>

definition make_report :: "scenario option \<Rightarrow> violation list \<Rightarrow> report" where
  "make_report sc vs =
     (let report_name =
        (case sc of
           None \<Rightarrow> ''Unnamed''
         | Some s \<Rightarrow>
             (let nm = (case name s of None \<Rightarrow> PNone | Some v \<Rightarrow> v)
              in if \<not> py_truthy nm \<or> strip (py_str nm) = [] then ''Unnamed''
                 else strip (py_str nm)))
      in \<lparr>rep_scenario = report_name, rep_violations = vs, total_violations = length vs\<rparr>)"

subsection \<open>Notions used to state the properties\<close>

text \<open>
  An event that resolves a wait opened at \<open>t0\<close>: a \<^verbatim>\<open>SPEED\<close> reading above 1.0 taken
  strictly after \<open>t0\<close>.
\<close>

definition resolves_wait :: "rat \<Rightarrow> event \<Rightarrow> bool" where
  "resolves_wait t0 e =
     (case e of (t, kind, arg) \<Rightarrow>
        kind = ''SPEED'' \<and> (case py_float arg of None \<Rightarrow> False | Some v \<Rightarrow> 1 < v \<and> t0 < t))"

text \<open>The reading of the last \<^verbatim>\<open>FOLLOW_DISTANCE\<close> event of a sequence, if there is one.\<close>

fun last_follow_distance :: "event list \<Rightarrow> rat option" where
  "last_follow_distance [] = None"
| "last_follow_distance (e # es) =
     (case last_follow_distance es of
        Some d \<Rightarrow> Some d
      | None \<Rightarrow> (case e of (t, kind, arg) \<Rightarrow>
                   if kind = ''FOLLOW_DISTANCE'' then py_float arg else None))"

text \<open>The four event kinds the detector knows.\<close>

definition known_kind :: "string \<Rightarrow> bool" where
  "known_kind k \<longleftrightarrow> k \<in> {''SPEED'', ''FOLLOW_DISTANCE'', ''LANE_CHANGE'', ''STOP_SIGN_DETECTED''}"

text \<open>
  An event as the reader produces it: the argument of a \<^verbatim>\<open>SPEED\<close> or
  \<^verbatim>\<open>FOLLOW_DISTANCE\<close> event is text that \<^verbatim>\<open>float\<close> accepts.
\<close>

definition numeric_arg :: "event \<Rightarrow> bool" where
  "numeric_arg e = (case e of (t, kind, arg) \<Rightarrow>
     (kind = ''SPEED'' \<or> kind = ''FOLLOW_DISTANCE'') \<longrightarrow> py_float arg \<noteq> None)"

text \<open>
  The text before the first colon and the text after it, and the failure condition of
  \<^verbatim>\<open>textToSeconds\<close> in the words of its description: zero or more than one colon, a
  minutes part that is not a non-negative integer, or a seconds part that is not a
  non-negative float.
\<close>

definition minutes_part :: "string \<Rightarrow> string" where
  "minutes_part ts = takeWhile (\<lambda>c. c \<noteq> CHR '':'') ts"

definition seconds_part :: "string \<Rightarrow> string" where
  "seconds_part ts = tl (dropWhile (\<lambda>c. c \<noteq> CHR '':'') ts)"




text \<open>
  A violation whose sort key is read without rounding: the digits of its formatted
  time denote a number of magnitude below \<open>2^53\<close>, which \<^verbatim>\<open>float\<close> returns as it is.
\<close>

definition exact_key :: "violation \<Rightarrow> bool" where
  "exact_key v \<longleftrightarrow> (case sort_surrogate v of None \<Rightarrow> False | Some k \<Rightarrow> \<bar>k\<bar> < 2 ^ 53)"

text \<open>
  The number that the sort key of a time formatted by \<^verbatim>\<open>_fmt_time\<close> denotes: the
  minutes followed by the three digits of the seconds in tenths, with the sign of the
  minutes.
\<close>

definition time_key :: "rat \<Rightarrow> rat" where
  "time_key t =
     (let m = \<lfloor>t / 60\<rfloor>; n = round_half_even ((t - of_int m * 60) * 10)
      in if m < 0 then of_int (m * 1000 - n) else of_int (m * 1000 + n))"

text \<open>
  A seconds text with exactly one digit after its point, and a timestamp in the form
  that \<^verbatim>\<open>_fmt_time\<close> writes below one hundred minutes: two minute digits, a colon, two
  second digits below 60, a point and one decimal digit.
\<close>

definition one_decimal_digit :: "string \<Rightarrow> bool" where
  "one_decimal_digit s \<longleftrightarrow>
     (case dropWhile (\<lambda>c. c \<noteq> CHR ''.'') s of [p, d] \<Rightarrow> is_digit d | _ \<Rightarrow> False)"

definition canonical_timestamp :: "string \<Rightarrow> bool" where
  "canonical_timestamp x \<longleftrightarrow>
     (case x of
        [m1, m2, c, s1, s2, p, d] \<Rightarrow>
          is_digit m1 \<and> is_digit m2 \<and> c = CHR '':'' \<and> is_digit s1 \<and> is_digit s2
          \<and> p = CHR ''.'' \<and> is_digit d \<and> 10 * digit_val s1 + digit_val s2 < 60
      | _ \<Rightarrow> False)"

section \<open>Properties\<close>

subsection \<open>One step of the detector\<close>

lemma violations_check_rolling_stop:
  "violations (check_rolling_stop r t v st) =
     violations st @
       (case stop_detect_time st of
          None \<Rightarrow> []
        | Some t0 \<Rightarrow> if 1 < v \<and> t0 < t \<and> t - t0 < stop_wait r
                     then [rolling_stop r t (t - t0)] else [])"
  by (simp add: check_rolling_stop_def append_violation_def Let_def split: option.splits)

lemma stop_detect_time_check_rolling_stop:
  "stop_detect_time (check_rolling_stop r t v st) =
     (case stop_detect_time st of
        None \<Rightarrow> None
      | Some t0 \<Rightarrow> if 1 < v \<and> t0 < t then None else Some t0)"
  by (simp add: check_rolling_stop_def append_violation_def Let_def split: option.splits)

lemma last_follow_check_rolling_stop:
  "last_follow (check_rolling_stop r t v st) = last_follow st"
  by (simp add: check_rolling_stop_def append_violation_def Let_def split: option.splits)

lemma process_event_SPEED:
  "process_event r st (t, ''SPEED'', arg) =
     (case py_float arg of
        None \<Rightarrow> Inl (ParseError arg)
      | Some v \<Rightarrow> Inr (check_rolling_stop r t v
           (if max_speed r < v then append_violation (speeding r t v) st else st)))"
  by (simp add: process_event_def)

lemma process_event_FOLLOW:
  "process_event r st (t, ''FOLLOW_DISTANCE'', arg) =
     (case py_float arg of
        None \<Rightarrow> Inl (ParseError arg)
      | Some d \<Rightarrow> Inr (if d < min_follow r
                       then append_violation (tailgating r t d) (st\<lparr>last_follow := Some d\<rparr>)
                       else st\<lparr>last_follow := Some d\<rparr>))"
  by (simp add: process_event_def Let_def split: option.splits)

lemma process_event_LANE:
  "process_event r st (t, ''LANE_CHANGE'', arg) =
     Inr (case last_follow st of
            None \<Rightarrow> st
          | Some lf \<Rightarrow> if lf < min_follow r then append_violation (unsafe_lane_change r t lf) st
                       else st)"
  by (simp add: process_event_def split: option.splits)

lemma process_event_STOP:
  "process_event r st (t, ''STOP_SIGN_DETECTED'', arg) = Inr (st\<lparr>stop_detect_time := Some t\<rparr>)"
  by (simp add: process_event_def)

lemma process_event_unknown:
  "kind \<notin> {''SPEED'', ''FOLLOW_DISTANCE'', ''LANE_CHANGE'', ''STOP_SIGN_DETECTED''} \<Longrightarrow>
   process_event r st (t, kind, arg) = Inl (UnknownEventKind kind)"
  by (simp add: process_event_def)

subsection \<open>Speeding\<close>

text \<open>
  C2. A \<^verbatim>\<open>SPEED\<close> event whose argument reads as the number \<open>v\<close> is processed without
  error, and among the violations it appends there is a \<^verbatim>\<open>SPEEDING\<close> violation (exactly
  one, for this event's time and speed) if and only if \<open>v\<close> is strictly greater than
  \<open>max_speed\<close>; for \<open>v = max_speed\<close> there is none.
\<close>

theorem speeding_iff_above_max_speed:
  assumes "py_float arg = Some v"
  shows "\<exists>st' new. process_event r st (t, ''SPEED'', arg) = Inr st'
           \<and> violations st' = violations st @ new
           \<and> filter (\<lambda>x. vtype x = ''SPEEDING'') new
               = (if max_speed r < v then [speeding r t v] else [])"
  using assms
  by (simp add: process_event_SPEED violations_check_rolling_stop append_violation_def
        speeding_def rolling_stop_def split: option.splits)

theorem speeding_iff_above_max_speed_witness: "py_float ''70.0'' = Some 70 \<and>
   (\<exists>st' new. process_event \<lparr>max_speed = 60, min_follow = 10, stop_wait = 3\<rparr> init_state (5, ''SPEED'', ''70.0'') = Inr st'
           \<and> violations st' = violations init_state @ new
           \<and> filter (\<lambda>x. vtype x = ''SPEEDING'') new
               = [speeding \<lparr>max_speed = 60, min_follow = 10, stop_wait = 3\<rparr> 5 70])"
proof -
  have h: "py_float ''70.0'' = Some 70" by code_simp
  from speeding_iff_above_max_speed[OF h, of "\<lparr>max_speed = 60, min_follow = 10, stop_wait = 3\<rparr>" init_state 5] h
  show ?thesis by simp
qed

subsection \<open>Tailgating\<close>

text \<open>
  C3. A \<^verbatim>\<open>FOLLOW_DISTANCE\<close> event whose argument reads as the number \<open>d\<close> is processed
  without error; afterwards \<open>d\<close> is the last follow distance, whatever it was before, and
  the event appends a \<^verbatim>\<open>TAILGATING\<close> violation if and only if \<open>d\<close> is strictly less than
  \<open>min_follow\<close> (none for \<open>d = min_follow\<close>), and nothing else.
\<close>

theorem tailgating_iff_below_min_follow:
  assumes "py_float arg = Some d"
  shows "\<exists>st' new. process_event r st (t, ''FOLLOW_DISTANCE'', arg) = Inr st'
           \<and> last_follow st' = Some d
           \<and> stop_detect_time st' = stop_detect_time st
           \<and> violations st' = violations st @ new
           \<and> new = (if d < min_follow r then [tailgating r t d] else [])
           \<and> (vtype (tailgating r t d) = ''TAILGATING'')"
  using assms
  by (simp add: process_event_FOLLOW append_violation_def tailgating_def)

theorem tailgating_iff_below_min_follow_witness: "py_float ''5.0'' = Some 5 \<and>
   (\<exists>st' new. process_event \<lparr>max_speed = 60, min_follow = 10, stop_wait = 3\<rparr> init_state (1, ''FOLLOW_DISTANCE'', ''5.0'') = Inr st'
           \<and> last_follow st' = Some 5
           \<and> violations st' = violations init_state @ new
           \<and> new = [tailgating \<lparr>max_speed = 60, min_follow = 10, stop_wait = 3\<rparr> 1 5])"
proof -
  have h: "py_float ''5.0'' = Some 5" by code_simp
  from tailgating_iff_below_min_follow[OF h, of "\<lparr>max_speed = 60, min_follow = 10, stop_wait = 3\<rparr>" init_state 1] h
  show ?thesis by auto
qed

subsection \<open>Rolling stops\<close>

lemma run_events_append:
  "run_events r st (xs @ ys) =
     (case run_events r st xs of Inl e \<Rightarrow> Inl e | Inr st1 \<Rightarrow> run_events r st1 ys)"
  by (induction xs arbitrary: st) (auto split: sum.splits)

lemma step_keeps_wait:
  assumes "process_event r st e = Inr st'" "stop_detect_time st = Some t0"
    "fst (snd e) \<noteq> ''STOP_SIGN_DETECTED''" "\<not> resolves_wait t0 e"
  shows "stop_detect_time st' = Some t0 \<and>
         (\<exists>new. violations st' = violations st @ new \<and> filter (\<lambda>x. vtype x = ''ROLLING_STOP'') new = [])"
proof -
  obtain t kind arg where e: "e = (t, kind, arg)" by (cases e) auto
  show ?thesis using assms unfolding e
    by (auto simp: process_event_def resolves_wait_def Let_def append_violation_def
        violations_check_rolling_stop stop_detect_time_check_rolling_stop
        speeding_def tailgating_def unsafe_lane_change_def
        split: if_splits option.splits)
qed

lemma step_no_wait:
  assumes "process_event r st e = Inr st'" "stop_detect_time st = None"
    "fst (snd e) \<noteq> ''STOP_SIGN_DETECTED''"
  shows "stop_detect_time st' = None \<and>
         (\<exists>new. violations st' = violations st @ new \<and> filter (\<lambda>x. vtype x = ''ROLLING_STOP'') new = [])"
proof -
  obtain t kind arg where e: "e = (t, kind, arg)" by (cases e) auto
  show ?thesis using assms unfolding e
    by (auto simp: process_event_def Let_def append_violation_def
        violations_check_rolling_stop stop_detect_time_check_rolling_stop
        speeding_def tailgating_def unsafe_lane_change_def
        split: if_splits option.splits)
qed

lemma run_keeps_wait:
  assumes "run_events r st es = Inr st'" "stop_detect_time st = Some t0"
    "\<forall>e\<in>set es. fst (snd e) \<noteq> ''STOP_SIGN_DETECTED'' \<and> \<not> resolves_wait t0 e"
  shows "stop_detect_time st' = Some t0 \<and>
         (\<exists>new. violations st' = violations st @ new \<and> filter (\<lambda>x. vtype x = ''ROLLING_STOP'') new = [])"
  using assms
proof (induction es arbitrary: st)
  case Nil
  then show ?case by simp
next
  case (Cons e es)
  from Cons.prems(1) obtain st1 where s1: "process_event r st e = Inr st1"
    and rest: "run_events r st1 es = Inr st'"
    by (auto split: sum.splits)
  from step_keeps_wait[OF s1 Cons.prems(2)] Cons.prems(3)
  obtain n1 where k1: "stop_detect_time st1 = Some t0" "violations st1 = violations st @ n1"
    "filter (\<lambda>x. vtype x = ''ROLLING_STOP'') n1 = []" by auto
  from Cons.IH[OF rest k1(1)] Cons.prems(3)
  obtain n2 where k2: "stop_detect_time st' = Some t0" "violations st' = violations st1 @ n2"
    "filter (\<lambda>x. vtype x = ''ROLLING_STOP'') n2 = []" by auto
  show ?case using k1 k2 by simp
qed

lemma run_no_wait:
  assumes "run_events r st es = Inr st'" "stop_detect_time st = None"
    "\<forall>e\<in>set es. fst (snd e) \<noteq> ''STOP_SIGN_DETECTED''"
  shows "stop_detect_time st' = None \<and>
         (\<exists>new. violations st' = violations st @ new \<and> filter (\<lambda>x. vtype x = ''ROLLING_STOP'') new = [])"
  using assms
proof (induction es arbitrary: st)
  case Nil
  then show ?case by simp
next
  case (Cons e es)
  from Cons.prems(1) obtain st1 where s1: "process_event r st e = Inr st1"
    and rest: "run_events r st1 es = Inr st'"
    by (auto split: sum.splits)
  from step_no_wait[OF s1 Cons.prems(2)] Cons.prems(3)
  obtain n1 where k1: "stop_detect_time st1 = None" "violations st1 = violations st @ n1"
    "filter (\<lambda>x. vtype x = ''ROLLING_STOP'') n1 = []" by auto
  from Cons.IH[OF rest k1(1)] Cons.prems(3)
  obtain n2 where k2: "stop_detect_time st' = None" "violations st' = violations st1 @ n2"
    "filter (\<lambda>x. vtype x = ''ROLLING_STOP'') n2 = []" by auto
  show ?case using k1 k2 by simp
qed

text \<open>
  C1. A \<^verbatim>\<open>STOP_SIGN_DETECTED\<close> event at \<open>t0\<close>, arriving in any state (a wait that is
  still pending is overwritten), followed by events that neither detect a stop sign nor
  resolve the wait, then by the first \<^verbatim>\<open>SPEED\<close> event above 1.0 at a time \<open>t > t0\<close>, then
  by any events without a new stop sign: over the whole run exactly one
  \<^verbatim>\<open>ROLLING_STOP\<close> is appended if \<open>t - t0 < stop_wait\<close>, and it is the one of the resolving
  event; none is appended otherwise (in particular for \<open>t - t0 = stop_wait\<close>). No later
  \<^verbatim>\<open>SPEED\<close> event adds another one, and the wait is cleared at the end.
\<close>

theorem rolling_stop_once_per_stop_sign:
  assumes run: "run_events r st ((t0, ''STOP_SIGN_DETECTED'', a0) # mid @ (t, ''SPEED'', arg) # post) = Inr st'"
    and mid: "\<forall>e\<in>set mid. fst (snd e) \<noteq> ''STOP_SIGN_DETECTED'' \<and> \<not> resolves_wait t0 e"
    and post: "\<forall>e\<in>set post. fst (snd e) \<noteq> ''STOP_SIGN_DETECTED''"
    and mv: "resolves_wait t0 (t, ''SPEED'', arg)"
  shows "\<exists>new. violations st' = violations st @ new
           \<and> filter (\<lambda>x. vtype x = ''ROLLING_STOP'') new
               = (if t - t0 < stop_wait r then [rolling_stop r t (t - t0)] else [])
           \<and> stop_detect_time st' = None
           \<and> process_event r st (t0, ''STOP_SIGN_DETECTED'', a0)
               = Inr (st\<lparr>stop_detect_time := Some t0\<rparr>)"
proof -
  let ?R = "filter (\<lambda>x. vtype x = ''ROLLING_STOP'')"
  let ?s0 = "st\<lparr>stop_detect_time := Some t0\<rparr>"
  from run have run1: "run_events r ?s0 (mid @ (t, ''SPEED'', arg) # post) = Inr st'"
    by (simp add: process_event_STOP)
  then obtain s1 where m: "run_events r ?s0 mid = Inr s1"
    and run2: "run_events r s1 ((t, ''SPEED'', arg) # post) = Inr st'"
    by (auto simp: run_events_append split: sum.splits)
  from run_keeps_wait[OF m _ mid]
  obtain n1 where k1: "stop_detect_time s1 = Some t0" "violations s1 = violations st @ n1" "?R n1 = []"
    by auto
  from mv obtain v where v: "py_float arg = Some v" "1 < v" "t0 < t"
    by (auto simp: resolves_wait_def split: option.splits)
  let ?sa = "if max_speed r < v then append_violation (speeding r t v) s1 else s1"
  let ?s2 = "check_rolling_stop r t v ?sa"
  from run2 v have run3: "run_events r ?s2 post = Inr st'"
    by (simp add: process_event_SPEED)
  have sa: "stop_detect_time ?sa = Some t0" using k1 by (simp add: append_violation_def)
  have k2a: "stop_detect_time ?s2 = None"
    using sa v by (simp add: stop_detect_time_check_rolling_stop)
  have k2b: "violations ?s2 = violations s1 @ (if max_speed r < v then [speeding r t v] else [])
        @ (if t - t0 < stop_wait r then [rolling_stop r t (t - t0)] else [])"
    using sa v by (simp add: violations_check_rolling_stop append_violation_def)
  from run_no_wait[OF run3 k2a post]
  obtain n3 where k3: "stop_detect_time st' = None" "violations st' = violations ?s2 @ n3" "?R n3 = []"
    by auto
  have "violations st' = violations st @ (n1 @ (if max_speed r < v then [speeding r t v] else [])
        @ (if t - t0 < stop_wait r then [rolling_stop r t (t - t0)] else []) @ n3)"
    using k1(2) k2b k3(2) by simp
  moreover have "?R (n1 @ (if max_speed r < v then [speeding r t v] else [])
        @ (if t - t0 < stop_wait r then [rolling_stop r t (t - t0)] else []) @ n3)
      = (if t - t0 < stop_wait r then [rolling_stop r t (t - t0)] else [])"
    using k1(3) k3(3) by (simp add: speeding_def rolling_stop_def)
  ultimately show ?thesis using k3(1) process_event_STOP[of r st t0 a0] by blast
qed

theorem rolling_stop_once_per_stop_sign_witness:
  "\<exists>st'. run_events \<lparr>max_speed = 60, min_follow = 10, stop_wait = 3\<rparr> init_state
            ((0, ''STOP_SIGN_DETECTED'', '''') # [(1, ''SPEED'', ''0.5'')] @ (2, ''SPEED'', ''5.0'') # [(5/2, ''SPEED'', ''5.0'')]) = Inr st'
     \<and> (\<forall>e\<in>set [(1, ''SPEED'', ''0.5'')]. fst (snd e) \<noteq> ''STOP_SIGN_DETECTED'' \<and> \<not> resolves_wait 0 e)
     \<and> (\<forall>e\<in>set [(5/2::rat, ''SPEED'', ''5.0'')]. fst (snd e) \<noteq> ''STOP_SIGN_DETECTED'')
     \<and> resolves_wait 0 (2, ''SPEED'', ''5.0'')
     \<and> (\<exists>new. violations st' = violations init_state @ new
           \<and> filter (\<lambda>x. vtype x = ''ROLLING_STOP'') new
               = [rolling_stop \<lparr>max_speed = 60, min_follow = 10, stop_wait = 3\<rparr> 2 2]
           \<and> stop_detect_time st' = None)"
proof -
  let ?r = "\<lparr>max_speed = 60, min_follow = 10, stop_wait = 3\<rparr>"
  let ?st = "\<lparr>last_follow = None, stop_detect_time = None,
       violations = [\<lparr>vtype = ''ROLLING_STOP'', vtime = ''00:02.0'', details = ''Stopped 2.0s; required 3.0s''\<rparr>]\<rparr>"
  have run: "run_events ?r init_state
            ((0, ''STOP_SIGN_DETECTED'', '''') # [(1, ''SPEED'', ''0.5'')] @ (2, ''SPEED'', ''5.0'') # [(5/2, ''SPEED'', ''5.0'')]) = Inr ?st"
    by code_simp
  have mid: "\<forall>e\<in>set [(1, ''SPEED'', ''0.5'')]. fst (snd e) \<noteq> ''STOP_SIGN_DETECTED'' \<and> \<not> resolves_wait 0 e"
    by code_simp
  have post: "\<forall>e\<in>set [(5/2::rat, ''SPEED'', ''5.0'')]. fst (snd e) \<noteq> ''STOP_SIGN_DETECTED''"
    by simp
  have mv: "resolves_wait 0 (2, ''SPEED'', ''5.0'')" by code_simp
  from rolling_stop_once_per_stop_sign[OF run mid post mv] obtain new where
    n: "violations ?st = violations init_state @ new"
       "filter (\<lambda>x. vtype x = ''ROLLING_STOP'') new
          = (if 2 - 0 < stop_wait ?r then [rolling_stop ?r 2 (2 - 0)] else [])"
       "stop_detect_time ?st = None"
    by blast
  have c: "\<exists>new. violations ?st = violations init_state @ new
           \<and> filter (\<lambda>x. vtype x = ''ROLLING_STOP'') new = [rolling_stop ?r 2 2]
           \<and> stop_detect_time ?st = None"
    using n by (intro exI[of _ new]) simp
  show ?thesis by (intro exI[of _ ?st] conjI run mid post mv c)
qed

subsection \<open>Unsafe lane changes\<close>

lemma last_follow_step:
  assumes "process_event r st e = Inr st'"
  shows "last_follow st' = (case last_follow_distance [e] of Some d \<Rightarrow> Some d | None \<Rightarrow> last_follow st)"
proof -
  obtain t kind arg where e: "e = (t, kind, arg)" by (cases e) auto
  show ?thesis using assms unfolding e
    by (auto simp: process_event_def Let_def append_violation_def last_follow_check_rolling_stop
        split: if_splits option.splits)
qed

lemma last_follow_run:
  assumes "run_events r st es = Inr st'"
  shows "last_follow st' = (case last_follow_distance es of Some d \<Rightarrow> Some d | None \<Rightarrow> last_follow st)"
  using assms
proof (induction es arbitrary: st)
  case Nil
  then show ?case by simp
next
  case (Cons e es)
  from Cons.prems obtain st1 where s1: "process_event r st e = Inr st1"
    and rest: "run_events r st1 es = Inr st'"
    by (auto split: sum.splits)
  from last_follow_step[OF s1] Cons.IH[OF rest] show ?case
    by (auto split: option.splits)
qed

text \<open>
  C4. After any run of the detector from its initial state over the events \<open>pre\<close>, a
  \<^verbatim>\<open>LANE_CHANGE\<close> event appends an \<^verbatim>\<open>UNSAFE_LANE_CHANGE\<close> violation if and only if \<open>pre\<close>
  contains a \<^verbatim>\<open>FOLLOW_DISTANCE\<close> event and the reading of the last one is strictly less
  than \<open>min_follow\<close>; with no earlier \<^verbatim>\<open>FOLLOW_DISTANCE\<close> event nothing is appended. The
  direction argument has no influence on the result.
\<close>

theorem unsafe_lane_change_iff_last_follow_below_min:
  assumes "run_events r init_state pre = Inr st"
  shows "process_event r st (t, ''LANE_CHANGE'', dir)
           = Inr (st\<lparr>violations := violations st @
                   (case last_follow_distance pre of
                      None \<Rightarrow> []
                    | Some d \<Rightarrow> if d < min_follow r then [unsafe_lane_change r t d] else [])\<rparr>)
         \<and> vtype (unsafe_lane_change r t d') = ''UNSAFE_LANE_CHANGE''
         \<and> process_event r st (t, ''LANE_CHANGE'', dir') = process_event r st (t, ''LANE_CHANGE'', dir)"
proof -
  have lf: "last_follow st = last_follow_distance pre"
    using last_follow_run[OF assms] by (simp add: init_state_def split: option.splits)
  show ?thesis using lf
    by (simp add: process_event_LANE append_violation_def unsafe_lane_change_def
          split: option.splits)
qed

theorem unsafe_lane_change_iff_last_follow_below_min_witness:
  "run_events \<lparr>max_speed = 60, min_follow = 10, stop_wait = 3\<rparr> init_state [(2, ''FOLLOW_DISTANCE'', ''5.0'')]
     = Inr \<lparr>last_follow = Some 5, stop_detect_time = None,
            violations = [\<lparr>vtype = ''TAILGATING'', vtime = ''00:02.0'', details = ''5.0 m < 10.0 m''\<rparr>]\<rparr>
   \<and> (process_event \<lparr>max_speed = 60, min_follow = 10, stop_wait = 3\<rparr>
               \<lparr>last_follow = Some 5, stop_detect_time = None,
                 violations = [\<lparr>vtype = ''TAILGATING'', vtime = ''00:02.0'', details = ''5.0 m < 10.0 m''\<rparr>]\<rparr>
               (3, ''LANE_CHANGE'', ''LEFT'')
        = Inr (\<lparr>last_follow = Some 5, stop_detect_time = None,
                 violations = [\<lparr>vtype = ''TAILGATING'', vtime = ''00:02.0'', details = ''5.0 m < 10.0 m''\<rparr>]\<rparr>
               \<lparr>violations := violations \<lparr>last_follow = Some 5, stop_detect_time = None,
                 violations = [\<lparr>vtype = ''TAILGATING'', vtime = ''00:02.0'', details = ''5.0 m < 10.0 m''\<rparr>]\<rparr> @
                   (case last_follow_distance [(2, ''FOLLOW_DISTANCE'', ''5.0'')] of
                      None \<Rightarrow> []
                    | Some d \<Rightarrow> if d < min_follow \<lparr>max_speed = 60, min_follow = 10, stop_wait = 3\<rparr>
                                then [unsafe_lane_change \<lparr>max_speed = 60, min_follow = 10, stop_wait = 3\<rparr> 3 d] else [])\<rparr>)
      \<and> vtype (unsafe_lane_change \<lparr>max_speed = 60, min_follow = 10, stop_wait = 3\<rparr> 3 5) = ''UNSAFE_LANE_CHANGE''
      \<and> process_event \<lparr>max_speed = 60, min_follow = 10, stop_wait = 3\<rparr>
               \<lparr>last_follow = Some 5, stop_detect_time = None,
                 violations = [\<lparr>vtype = ''TAILGATING'', vtime = ''00:02.0'', details = ''5.0 m < 10.0 m''\<rparr>]\<rparr>
               (3, ''LANE_CHANGE'', ''RIGHT'')
         = process_event \<lparr>max_speed = 60, min_follow = 10, stop_wait = 3\<rparr>
               \<lparr>last_follow = Some 5, stop_detect_time = None,
                 violations = [\<lparr>vtype = ''TAILGATING'', vtime = ''00:02.0'', details = ''5.0 m < 10.0 m''\<rparr>]\<rparr>
               (3, ''LANE_CHANGE'', ''LEFT''))
   \<and> last_follow_distance [(2, ''FOLLOW_DISTANCE'', ''5.0'')] = Some 5"
proof -
  let ?r = "\<lparr>max_speed = 60, min_follow = 10, stop_wait = 3\<rparr>"
  let ?st = "\<lparr>last_follow = Some 5, stop_detect_time = None,
            violations = [\<lparr>vtype = ''TAILGATING'', vtime = ''00:02.0'', details = ''5.0 m < 10.0 m''\<rparr>]\<rparr>"
  have run: "run_events ?r init_state [(2, ''FOLLOW_DISTANCE'', ''5.0'')] = Inr ?st"
    by code_simp
  have lfd: "last_follow_distance [(2, ''FOLLOW_DISTANCE'', ''5.0'')] = Some 5" by code_simp
  show ?thesis
    by (intro conjI run lfd)
       (rule unsafe_lane_change_iff_last_follow_below_min[OF run, of 3 "''LEFT''" 5 "''RIGHT''", THEN conjunct1],
        rule unsafe_lane_change_iff_last_follow_below_min[OF run, of 3 "''LEFT''" 5 "''RIGHT''", THEN conjunct2, THEN conjunct1],
        rule unsafe_lane_change_iff_last_follow_below_min[OF run, of 3 "''LEFT''" 5 "''RIGHT''", THEN conjunct2, THEN conjunct2])
qed

subsection \<open>Unknown event kinds\<close>

lemma process_event_unknown_kind:
  "\<not> known_kind kind \<Longrightarrow> process_event r st (t, kind, arg) = Inl (UnknownEventKind kind)"
  by (rule process_event_unknown) (simp add: known_kind_def)

lemma run_events_unknown_fails:
  assumes "\<exists>e\<in>set es. \<not> known_kind (fst (snd e))"
  shows "\<exists>err. run_events r st es = Inl err"
  using assms
proof (induction es arbitrary: st)
  case Nil
  then show ?case by simp
next
  case (Cons e es)
  obtain t kind arg where e: "e = (t, kind, arg)" by (cases e) auto
  show ?case
  proof (cases "process_event r st e")
    case (Inl err)
    then show ?thesis by simp
  next
    case (Inr st1)
    have "known_kind kind"
    proof (rule ccontr)
      assume "\<not> known_kind kind"
      from process_event_unknown_kind[OF this, of r st t arg] Inr e show False by simp
    qed
    with Cons.prems e have "\<exists>e\<in>set es. \<not> known_kind (fst (snd e))"
      by auto
    from Cons.IH[OF this, of st1] Inr show ?thesis by simp
  qed
qed

lemma process_event_ok:
  assumes "known_kind (fst (snd e))" "numeric_arg e"
  shows "\<exists>st'. process_event r st e = Inr st'"
proof -
  obtain t kind arg where e: "e = (t, kind, arg)" by (cases e) auto
  from assms(1) e consider "kind = ''SPEED''" | "kind = ''FOLLOW_DISTANCE''"
    | "kind = ''LANE_CHANGE''" | "kind = ''STOP_SIGN_DETECTED''"
    by (auto simp: known_kind_def)
  then show ?thesis
  proof cases
    case 1
    with assms(2) e obtain v where "py_float arg = Some v" by (auto simp: numeric_arg_def)
    then show ?thesis unfolding e 1 by (simp add: process_event_SPEED)
  next
    case 2
    with assms(2) e obtain v where "py_float arg = Some v" by (auto simp: numeric_arg_def)
    then show ?thesis unfolding e 2 by (simp add: process_event_FOLLOW)
  next
    case 3
    show ?thesis unfolding e 3 by (simp add: process_event_LANE)
  next
    case 4
    show ?thesis unfolding e 4 by (simp add: process_event_STOP)
  qed
qed

lemma run_events_ok:
  assumes "\<forall>e\<in>set es. known_kind (fst (snd e)) \<and> numeric_arg e"
  shows "\<exists>st'. run_events r st es = Inr st'"
  using assms
proof (induction es arbitrary: st)
  case Nil
  then show ?case by simp
next
  case (Cons e es)
  from process_event_ok[of e r st] Cons.prems obtain st1 where s1: "process_event r st e = Inr st1"
    by auto
  from Cons.IH[of st1] Cons.prems obtain st2 where "run_events r st1 es = Inr st2" by auto
  with s1 show ?case by simp
qed

lemma run_events_first_unknown:
  assumes "\<forall>e\<in>set pre. known_kind (fst (snd e)) \<and> numeric_arg e" "\<not> known_kind kind"
  shows "run_events r st (pre @ (t, kind, arg) # post) = Inl (UnknownEventKind kind)"
proof -
  from run_events_ok[OF assms(1)] obtain st1 where "run_events r st pre = Inr st1" by blast
  moreover have "process_event r st1 (t, kind, arg) = Inl (UnknownEventKind kind)"
    using assms(2) by (rule process_event_unknown_kind)
  ultimately show ?thesis by (simp add: run_events_append)
qed

lemma detect_violations_empty:
  "read_rules sc = Inr r \<Longrightarrow> detect_violations sc [] = Inr []"
  by (simp add: detect_violations_def sort_violations_def init_state_def)

text \<open>
  C6. For a scenario whose road rules can be read: a sequence that contains an event of
  an unknown kind makes \<^verbatim>\<open>detect_violations\<close> fail, so no violation list is returned; when
  the events before the first unknown kind are well-formed, the failure is the
  unknown-kind error for that kind. The empty sequence gives the empty list, without
  error.
\<close>

theorem unknown_kind_aborts_run:
  assumes "read_rules sc = Inr r"
  shows "((\<exists>e\<in>set events. \<not> known_kind (fst (snd e))) \<longrightarrow> (\<exists>err. detect_violations sc events = Inl err))
    \<and> ((\<forall>e\<in>set pre. known_kind (fst (snd e)) \<and> numeric_arg e) \<and> \<not> known_kind kind
         \<longrightarrow> detect_violations sc (pre @ (t, kind, arg) # post) = Inl (UnknownEventKind kind))
    \<and> detect_violations sc [] = Inr []"
proof (intro impI conjI)
  show "detect_violations sc [] = Inr []"
    using assms by (rule detect_violations_empty)
next
  assume "\<exists>e\<in>set events. \<not> known_kind (fst (snd e))"
  from run_events_unknown_fails[OF this, of r init_state]
  obtain err where "run_events r init_state events = Inl err" by blast
  then show "\<exists>err. detect_violations sc events = Inl err"
    using assms by (simp add: detect_violations_def)
next
  assume a: "(\<forall>e\<in>set pre. known_kind (fst (snd e)) \<and> numeric_arg e) \<and> \<not> known_kind kind"
  then have "run_events r init_state (pre @ (t, kind, arg) # post) = Inl (UnknownEventKind kind)"
    by (simp add: run_events_first_unknown)
  then show "detect_violations sc (pre @ (t, kind, arg) # post) = Inl (UnknownEventKind kind)"
    using assms by (simp add: detect_violations_def)
qed

theorem unknown_kind_aborts_run_witness:
  "read_rules \<lparr>name = None, road_rules = Some [(''max_speed'', NInt 60), (''min_follow_distance'', NInt 10), (''stop_sign_wait'', NInt 3)]\<rparr>
      = Inr \<lparr>max_speed = 60, min_follow = 10, stop_wait = 3\<rparr>
   \<and> (\<exists>e\<in>set [(0::rat, ''SPEED'', ''70.0''), (1, ''UNKNOWN'', ''data'')]. \<not> known_kind (fst (snd e)))
   \<and> known_kind ''SPEED'' \<and> numeric_arg (0, ''SPEED'', ''70.0'')
   \<and> \<not> known_kind ''UNKNOWN''
   \<and> detect_violations \<lparr>name = None, road_rules = Some [(''max_speed'', NInt 60), (''min_follow_distance'', NInt 10), (''stop_sign_wait'', NInt 3)]\<rparr>
        ([(0, ''SPEED'', ''70.0'')] @ (1, ''UNKNOWN'', ''data'') # []) = Inl (UnknownEventKind ''UNKNOWN'')
   \<and> detect_violations \<lparr>name = None, road_rules = Some [(''max_speed'', NInt 60), (''min_follow_distance'', NInt 10), (''stop_sign_wait'', NInt 3)]\<rparr> [] = Inr []"
proof -
  let ?sc = "\<lparr>name = None, road_rules = Some [(''max_speed'', NInt 60), (''min_follow_distance'', NInt 10), (''stop_sign_wait'', NInt 3)]\<rparr>"
  have rr: "read_rules ?sc = Inr \<lparr>max_speed = 60, min_follow = 10, stop_wait = 3\<rparr>"
    by code_simp
  have h1: "\<exists>e\<in>set [(0::rat, ''SPEED'', ''70.0''), (1, ''UNKNOWN'', ''data'')]. \<not> known_kind (fst (snd e))"
    by code_simp
  have h2: "\<forall>e\<in>set [(0::rat, ''SPEED'', ''70.0'')]. known_kind (fst (snd e)) \<and> numeric_arg e"
    by code_simp
  have h3: "\<not> known_kind ''UNKNOWN''" by code_simp
  note t = unknown_kind_aborts_run[OF rr, of "[(0, ''SPEED'', ''70.0''), (1, ''UNKNOWN'', ''data'')]"
      "[(0, ''SPEED'', ''70.0'')]" "''UNKNOWN''" 1 "''data''" "[]"]
  from t have a: "detect_violations ?sc ([(0, ''SPEED'', ''70.0'')] @ (1, ''UNKNOWN'', ''data'') # []) = Inl (UnknownEventKind ''UNKNOWN'')"
    using h2 h3 by blast
  from t have b: "detect_violations ?sc [] = Inr []" by blast
  have k: "known_kind ''SPEED''" and n: "numeric_arg (0, ''SPEED'', ''70.0'')"
    using h2 by simp_all
  show ?thesis by (intro conjI rr h1 k n h3 a b)
qed

subsection \<open>The report\<close>

lemma strip_empty_iff: "strip s = [] \<longleftrightarrow> list_all is_space s"
proof -
  have "strip s = [] \<longleftrightarrow> (\<forall>x\<in>set (dropWhile is_space s). is_space x)"
    by (simp add: strip_def dropWhile_eq_Nil_conv)
  also have "\<dots> \<longleftrightarrow> dropWhile is_space s = []"
  proof
    assume a: "\<forall>x\<in>set (dropWhile is_space s). is_space x"
    show "dropWhile is_space s = []"
    proof (rule ccontr)
      assume n: "dropWhile is_space s \<noteq> []"
      then have "\<not> is_space (hd (dropWhile is_space s))" by (rule hd_dropWhile)
      moreover have "hd (dropWhile is_space s) \<in> set (dropWhile is_space s)" using n by simp
      ultimately show False using a by blast
    qed
  qed (auto dest: set_dropWhileD)
  also have "\<dots> \<longleftrightarrow> list_all is_space s"
    by (simp add: dropWhile_eq_Nil_conv list_all_iff)
  finally show ?thesis .
qed

text \<open>
  C9. The report carries the violation list it was given, unchanged, and its length as
  the total. The scenario field is \<^verbatim>\<open>"Unnamed"\<close> when the scenario is \<^verbatim>\<open>None\<close>, when it has
  no name, when the name is \<^verbatim>\<open>None\<close>, and when the name is empty or whitespace only;
  for any other string it is the name without its leading and trailing whitespace.
\<close>

theorem make_report_shape:
  "rep_violations (make_report sc vs) = vs
   \<and> total_violations (make_report sc vs) = length vs
   \<and> rep_scenario (make_report None vs) = ''Unnamed''
   \<and> rep_scenario (make_report (Some (s\<lparr>name := None\<rparr>)) vs) = ''Unnamed''
   \<and> rep_scenario (make_report (Some (s\<lparr>name := Some PNone\<rparr>)) vs) = ''Unnamed''
   \<and> rep_scenario (make_report (Some (s\<lparr>name := Some (PStr x)\<rparr>)) vs)
       = (if list_all is_space x then ''Unnamed'' else strip x)"
proof -
  have "x = [] \<Longrightarrow> list_all is_space x" by simp
  then show ?thesis
    by (auto simp add: make_report_def Let_def strip_empty_iff split: option.splits)
qed

theorem make_report_shape_witness: "rep_scenario (make_report (Some (\<lparr>name = None, road_rules = None\<rparr>\<lparr>name := Some (PStr ''  Campus Drive  '')\<rparr>)) []) = ''Campus Drive''
   \<and> rep_scenario (make_report (Some (\<lparr>name = None, road_rules = None\<rparr>\<lparr>name := Some (PStr ''   '')\<rparr>)) []) = ''Unnamed''"
proof -
  have a: "\<not> list_all is_space ''  Campus Drive  ''" by code_simp
  have b: "strip ''  Campus Drive  '' = ''Campus Drive''" by code_simp
  have c: "list_all is_space ''   ''" by code_simp
  from make_report_shape[of None "[]" "\<lparr>name = None, road_rules = None\<rparr>" "''  Campus Drive  ''"]
       make_report_shape[of None "[]" "\<lparr>name = None, road_rules = None\<rparr>" "''   ''"] a b c
  show ?thesis by presburger
qed

subsection \<open>Reading a timestamp\<close>







subsection \<open>Digit strings\<close>

lemma of_char_digit_char: "d < 10 \<Longrightarrow> (of_char (digit_char d) :: nat) = 48 + d"
  by (simp add: digit_char_def of_char_of)

lemma is_digit_digit_char: "d < 10 \<Longrightarrow> is_digit (digit_char d)"
  by (simp add: is_digit_def of_char_digit_char)

lemma digit_val_digit_char: "d < 10 \<Longrightarrow> digit_val (digit_char d) = d"
  by (simp add: digit_val_def of_char_digit_char)

lemma digit_char_digit_val: "is_digit c \<Longrightarrow> digit_char (digit_val c) = c"
  by (simp add: is_digit_def digit_val_def digit_char_def)

lemma digit_val_less: "is_digit c \<Longrightarrow> digit_val c < 10"
  by (auto simp: is_digit_def digit_val_def)

lemma is_digit_not_special:
  assumes "is_digit c"
  shows "c \<noteq> CHR '':''" "c \<noteq> CHR ''.''" "c \<noteq> CHR ''-''" "c \<noteq> CHR ''+''" "\<not> is_space c"
  using assms by (auto simp: is_digit_def is_space_def Let_def)

lemma digits_of_all_digits: "list_all is_digit (digits_of n)"
  by (induction n rule: digits_of.induct) (subst digits_of.simps, simp add: is_digit_digit_char)

lemma digits_of_not_Nil: "digits_of n \<noteq> []"
  by (subst digits_of.simps) simp

lemma foldl_digits_acc:
  "foldl (\<lambda>acc c. 10 * acc + digit_val c) a ds
     = a * 10 ^ length ds + foldl (\<lambda>acc c. 10 * acc + digit_val c) 0 ds"
proof -
  define f where "f = (\<lambda>acc c. 10 * acc + digit_val c)"
  have "foldl f a ds = a * 10 ^ length ds + foldl f 0 ds"
  proof (induction ds arbitrary: a)
    case Nil
    then show ?case by simp
  next
    case (Cons d ds)
    have "foldl f a (d # ds) = foldl f (10 * a + digit_val d) ds" by (simp add: f_def)
    also have "\<dots> = (10 * a + digit_val d) * 10 ^ length ds + foldl f 0 ds" by (rule Cons.IH)
    finally have l: "foldl f a (d # ds) = (10 * a + digit_val d) * 10 ^ length ds + foldl f 0 ds" .
    have "foldl f 0 (d # ds) = foldl f (digit_val d) ds" by (simp add: f_def)
    also have "\<dots> = digit_val d * 10 ^ length ds + foldl f 0 ds" by (rule Cons.IH)
    finally have r: "foldl f 0 (d # ds) = digit_val d * 10 ^ length ds + foldl f 0 ds" .
    show ?case unfolding l r by (simp add: algebra_simps)
  qed
  then show ?thesis by (simp add: f_def)
qed

lemma nat_of_digits_append:
  "nat_of_digits (xs @ ys) = nat_of_digits xs * 10 ^ length ys + nat_of_digits ys"
  unfolding nat_of_digits_def by (simp add: foldl_digits_acc[of "foldl _ 0 xs"])

lemma nat_of_digits_single: "nat_of_digits [c] = digit_val c"
  by (simp add: nat_of_digits_def)

lemma nat_of_digits_digits_of: "nat_of_digits (digits_of n) = n"
proof (induction n rule: digits_of.induct)
  case (1 n)
  show ?case
  proof (cases "n < 10")
    case True
    then show ?thesis
      by (subst digits_of.simps) (simp add: nat_of_digits_single digit_val_digit_char)
  next
    case False
    with 1 have "nat_of_digits (digits_of (n div 10)) = n div 10" by simp
    with False show ?thesis
      by (subst digits_of.simps)
         (simp add: nat_of_digits_append nat_of_digits_single digit_val_digit_char)
  qed
qed

lemma nat_of_digits_zeros: "nat_of_digits (replicate k (CHR ''0'') @ ds) = nat_of_digits ds"
proof (induction k)
  case 0
  then show ?case by simp
next
  case (Suc k)
  have "nat_of_digits (CHR ''0'' # (replicate k (CHR ''0'') @ ds))
      = nat_of_digits ([CHR ''0''] @ (replicate k (CHR ''0'') @ ds))" by simp
  also have "\<dots> = nat_of_digits (replicate k (CHR ''0'') @ ds)"
    unfolding nat_of_digits_append by (simp add: nat_of_digits_single digit_val_def)
  finally show ?case using Suc by simp
qed

lemma strip_id:
  assumes "s \<noteq> []" "\<not> is_space (hd s)" "\<not> is_space (last s)"
  shows "strip s = s"
proof -
  from assms have a: "dropWhile is_space s = s" by (cases s) auto
  from assms have "rev s \<noteq> []" "\<not> is_space (hd (rev s))" by (simp_all add: hd_rev)
  then have "dropWhile is_space (rev s) = rev s" by (cases "rev s") auto
  with a show ?thesis by (simp add: strip_def)
qed

lemma num_strip_id:
  assumes "s \<noteq> []" "\<not> is_num_space (hd s)" "\<not> is_num_space (last s)"
  shows "num_strip s = s"
proof -
  from assms have a: "dropWhile is_num_space s = s" by (cases s) auto
  from assms have "rev s \<noteq> []" "\<not> is_num_space (hd (rev s))" by (simp_all add: hd_rev)
  then have "dropWhile is_num_space (rev s) = rev s" by (cases "rev s") auto
  with a show ?thesis by (simp add: num_strip_def)
qed

lemma is_digit_not_num_space: "is_digit c \<Longrightarrow> \<not> is_num_space c"
  by (auto simp: is_digit_def is_num_space_def Let_def)

lemma is_digit_not_underscore: "is_digit c \<Longrightarrow> c \<noteq> CHR ''_''"
  by (auto simp: is_digit_def)

lemma no_double_underscore_digits: "list_all is_digit ds \<Longrightarrow> no_double_underscore ds"
proof (induction ds rule: no_double_underscore.induct)
  case (1 a b cs)
  then show ?case using is_digit_not_underscore[of a] by simp
qed simp_all

lemma digit_run_digits:
  assumes "ds \<noteq> []" "list_all is_digit ds"
  shows "digit_run ds"
proof -
  from assms have "is_digit (hd ds)" "is_digit (last ds)" by (auto simp: list_all_iff)
  moreover have "list_all (\<lambda>c. is_digit c \<or> c = CHR ''_'') ds"
    using assms(2) by (auto simp: list_all_iff)
  ultimately show ?thesis
    using assms(1) no_double_underscore_digits[OF assms(2)] by (simp add: digit_run_def)
qed

lemma run_value_digits: "list_all is_digit ds \<Longrightarrow> run_value ds = nat_of_digits ds"
  by (simp add: run_value_def list_all_iff)

lemma span_digits:
  assumes "list_all is_digit ds"
  shows "takeWhile (\<lambda>c. is_digit c \<or> c = CHR ''_'') ds = ds"
    "dropWhile (\<lambda>c. is_digit c \<or> c = CHR ''_'') ds = []"
  using assms by (auto simp: list_all_iff takeWhile_eq_all_conv dropWhile_eq_Nil_conv)

lemma py_float_digits:
  assumes "ds \<noteq> []" "list_all is_digit ds"
  shows "py_float ds = Some (of_nat (nat_of_digits ds))"
proof -
  from assms have h: "is_digit (hd ds)" and l: "is_digit (last ds)"
    by (auto simp: list_all_iff)
  have st: "num_strip ds = ds"
    using assms(1) h l by (intro num_strip_id) (auto dest: is_digit_not_num_space)
  obtain c cs where ds: "ds = c # cs" using assms(1) by (cases ds) auto
  with h have c: "is_digit c" by simp
  have ss: "split_sign ds = (False, ds)"
    unfolding ds using is_digit_not_special[OF c] by simp
  show ?thesis
    by (simp add: py_float_def st ss span_digits[OF assms(2)] Let_def
          digit_run_digits[OF assms] run_value_digits[OF assms(2)])
qed

lemma py_float_minus_digits:
  assumes "ds \<noteq> []" "list_all is_digit ds"
  shows "py_float (CHR ''-'' # ds) = Some (- of_nat (nat_of_digits ds))"
proof -
  from assms have l: "is_digit (last ds)"
    by (auto simp: list_all_iff)
  have "\<not> is_num_space (CHR ''-'')" by (simp add: is_num_space_def)
  then have st: "num_strip (CHR ''-'' # ds) = CHR ''-'' # ds"
    using assms(1) l by (intro num_strip_id) (auto dest: is_digit_not_num_space)
  show ?thesis
    by (simp add: py_float_def st span_digits[OF assms(2)] Let_def
          digit_run_digits[OF assms] run_value_digits[OF assms(2)])
qed

subsection \<open>The size of what \<^verbatim>\<open>int\<close> reads\<close>







subsection \<open>When reading a timestamp fails\<close>




subsection \<open>The final sort\<close>

lemma those_eq_Some: "those xs = Some ys \<longleftrightarrow> xs = map Some ys"
proof (induction xs arbitrary: ys)
  case Nil
  then show ?case by auto
next
  case (Cons x xs)
  then show ?case by (cases x) (auto split: option.splits)
qed

lemma zip_keys_agree:
  assumes "map key vs0 = map Some ks" "p \<in> set (zip ks vs0)"
  shows "key (snd p) = Some (fst p)"
proof -
  from assms(2) obtain i where i: "i < length ks" "i < length vs0" "p = (ks ! i, vs0 ! i)"
    by (auto simp: set_zip)
  from assms(1) i have "map key vs0 ! i = map Some ks ! i" by simp
  with i show ?thesis by simp
qed

lemma keyed_sort_keys:
  assumes "map key vs0 = map Some ks"
  shows "map key (map snd (sort_key fst (zip ks vs0)))
           = map Some (map fst (sort_key fst (zip ks vs0)))"
proof -
  have "\<forall>p\<in>set (sort_key fst (zip ks vs0)). key (snd p) = Some (fst p)"
    using zip_keys_agree[OF assms] by simp
  then show ?thesis by (simp add: comp_def)
qed

lemma keyed_sort_stable:
  assumes "map key vs0 = map Some ks"
  shows "filter (\<lambda>v. key v = k) (map snd (sort_key fst (zip ks vs0))) = filter (\<lambda>v. key v = k) vs0"
proof -
  let ?zs = "zip ks vs0"
  have len: "length ks = length vs0" using assms by (metis length_map)
  then have snd_zs: "map snd ?zs = vs0" by simp
  have agree: "\<And>p. p \<in> set ?zs \<Longrightarrow> key (snd p) = Some (fst p)"
    using zip_keys_agree[OF assms] by blast
  show ?thesis
  proof (cases k)
    case None
    have "filter (\<lambda>p. key (snd p) = None) (sort_key fst ?zs) = []"
      using agree by (auto simp: filter_empty_conv)
    moreover have "filter (\<lambda>p. key (snd p) = None) ?zs = []"
      using agree by (auto simp: filter_empty_conv)
    then have "filter (\<lambda>v. key v = None) (map snd ?zs) = []"
      by (simp add: filter_map comp_def)
    ultimately show ?thesis using None snd_zs by (simp add: filter_map comp_def)
  next
    case (Some q)
    have "filter (\<lambda>v. key v = Some q) (map snd (sort_key fst ?zs))
        = map snd (filter (\<lambda>p. key (snd p) = Some q) (sort_key fst ?zs))"
      by (simp add: filter_map comp_def)
    also have "filter (\<lambda>p. key (snd p) = Some q) (sort_key fst ?zs)
        = filter (\<lambda>p. fst p = q) (sort_key fst ?zs)"
      by (rule filter_cong) (use agree in auto)
    also have "\<dots> = filter (\<lambda>p. fst p = q) ?zs" by (rule sort_key_stable)
    also have "\<dots> = filter (\<lambda>p. key (snd p) = Some q) ?zs"
      by (rule filter_cong) (use agree in auto)
    also have "map snd \<dots> = filter (\<lambda>v. key v = Some q) (map snd ?zs)"
      by (simp add: filter_map comp_def)
    finally show ?thesis using Some snd_zs by simp
  qed
qed

lemma sort_violations_Inr:
  assumes "sort_violations vs0 = Inr vs"
  shows "\<exists>ks. map sort_surrogate vs0 = map Some ks \<and> vs = map snd (sort_key fst (zip ks vs0))"
  using assms by (auto simp: sort_violations_def those_eq_Some split: option.splits)

lemma detect_violations_Inr:
  assumes "detect_violations sc events = Inr vs"
  shows "\<exists>r st. read_rules sc = Inr r \<and> run_events r init_state events = Inr st
           \<and> sort_violations (violations st) = Inr vs"
  using assms by (auto simp: detect_violations_def split: sum.splits)

subsection \<open>Formatting a time\<close>

lemma round_half_even_bounds: "\<lfloor>x\<rfloor> \<le> round_half_even x \<and> round_half_even x \<le> \<lfloor>x\<rfloor> + 1"
  by (simp add: round_half_even_def Let_def)

lemma round_half_even_of_int: "round_half_even (of_int k) = k"
  by (simp add: round_half_even_def Let_def)

lemma round_half_even_mono:
  assumes "x \<le> y"
  shows "round_half_even x \<le> round_half_even y"
proof (cases "\<lfloor>x\<rfloor> = \<lfloor>y\<rfloor>")
  case True
  have "x - of_int \<lfloor>x\<rfloor> \<le> y - of_int \<lfloor>y\<rfloor>" using assms True by simp
  then show ?thesis using True
    by (auto simp: round_half_even_def Let_def)
next
  case False
  have "\<lfloor>x\<rfloor> \<le> \<lfloor>y\<rfloor>" using assms by (rule floor_mono)
  with False have "\<lfloor>x\<rfloor> + 1 \<le> \<lfloor>y\<rfloor>" by simp
  with round_half_even_bounds[of x] round_half_even_bounds[of y] show ?thesis by linarith
qed

lemma round_half_even_range:
  assumes "0 \<le> x" "x < of_int k"
  shows "0 \<le> round_half_even x \<and> round_half_even x \<le> k"
proof -
  have "0 \<le> \<lfloor>x\<rfloor>" using assms(1) by simp
  moreover have "\<lfloor>x\<rfloor> < k" using assms(2) by (simp add: floor_less_iff)
  ultimately show ?thesis using round_half_even_bounds[of x] by linarith
qed

lemma seconds_range:
  fixes t :: rat
  shows "0 \<le> t - of_int \<lfloor>t / 60\<rfloor> * 60 \<and> t - of_int \<lfloor>t / 60\<rfloor> * 60 < 60"
proof -
  have "of_int \<lfloor>t / 60\<rfloor> \<le> t / 60" by (rule of_int_floor_le)
  moreover have "t / 60 < of_int \<lfloor>t / 60\<rfloor> + 1" by linarith
  ultimately show ?thesis by (simp add: field_simps)
qed

lemma digit_char_0: "digit_char 0 = CHR ''0''"
  by code_simp

lemma digits_of_small: "n < 10 \<Longrightarrow> digits_of n = [digit_char n]"
  by (subst digits_of.simps) simp

lemma digits_of_two: "10 \<le> n \<Longrightarrow> n < 100 \<Longrightarrow> digits_of n = [digit_char (n div 10), digit_char (n mod 10)]"
  by (subst digits_of.simps) (simp add: digits_of_small)

lemma pad_two_digits:
  assumes "n < 100"
  shows "replicate (2 - length (digits_of n)) (CHR ''0'') @ digits_of n
           = [digit_char (n div 10), digit_char (n mod 10)]"
proof (cases "n < 10")
  case True
  then show ?thesis by (simp add: digits_of_small digit_char_0)
next
  case False
  then show ?thesis using assms by (simp add: digits_of_two)
qed

lemma zero_pad_digit_head:
  assumes "s = c # r" "is_digit c"
  shows "zero_pad w s = replicate (w - length s) (CHR ''0'') @ s"
  using assms is_digit_not_special(3)[OF assms(2)] by (simp add: zero_pad_def)

lemma fmt_seconds:
  assumes "0 \<le> s" "s < 60"
  defines "n \<equiv> nat (round_half_even (s * 10))"
  shows "zero_pad 4 (fmt_f 1 s)
           = [digit_char (n div 100), digit_char (n div 10 mod 10), CHR ''.'', digit_char (n mod 10)]"
    and "n \<le> 600"
proof -
  have r: "0 \<le> round_half_even (s * 10) \<and> round_half_even (s * 10) \<le> 600"
    using assms(1,2) by (intro round_half_even_range) auto
  then show n: "n \<le> 600" unfolding n_def by linarith
  have abs: "\<bar>s\<bar> = s" using assms(1) by simp
  have ip: "n div 10 < 100" using n by simp
  have fp: "n mod 10 < 10" by simp
  have f: "fmt_f 1 s = digits_of (n div 10) @ [CHR ''.'', digit_char (n mod 10)]"
    using assms(1) is_digit_not_special(3)[OF is_digit_digit_char[OF fp]]
    by (simp add: fmt_f_def Let_def abs n_def[symmetric] digits_of_small zero_pad_def)
  obtain c r where cr: "digits_of (n div 10) = c # r" "is_digit c"
    using digits_of_not_Nil[of "n div 10"] digits_of_all_digits[of "n div 10"]
    by (cases "digits_of (n div 10)") auto
  have len: "length (digits_of (n div 10)) \<le> 2"
    using ip by (cases "n div 10 < 10") (simp_all add: digits_of_small digits_of_two)
  have "zero_pad 4 (fmt_f 1 s)
      = replicate (4 - length (fmt_f 1 s)) (CHR ''0'') @ fmt_f 1 s"
    by (rule zero_pad_digit_head[of _ c "r @ [CHR ''.'', digit_char (n mod 10)]"])
       (use f cr in simp_all)
  also have "\<dots> = (replicate (2 - length (digits_of (n div 10))) (CHR ''0'') @ digits_of (n div 10))
       @ [CHR ''.'', digit_char (n mod 10)]"
    using len f by simp
  also have "\<dots> = [digit_char (n div 10 div 10), digit_char (n div 10 mod 10), CHR ''.'', digit_char (n mod 10)]"
    by (simp add: pad_two_digits[OF ip])
  finally show "zero_pad 4 (fmt_f 1 s)
           = [digit_char (n div 100), digit_char (n div 10 mod 10), CHR ''.'', digit_char (n mod 10)]"
    by (simp add: div_mult2_eq[symmetric])
qed

lemma nat_of_three_digits:
  assumes "n < 1000"
  shows "nat_of_digits [digit_char (n div 100), digit_char (n div 10 mod 10), digit_char (n mod 10)] = n"
    and "list_all is_digit [digit_char (n div 100), digit_char (n div 10 mod 10), digit_char (n mod 10)]"
proof -
  have a: "n div 100 < 10" using assms by simp
  have b: "n div 10 mod 10 < 10" "n mod 10 < 10" by simp_all
  show "list_all is_digit [digit_char (n div 100), digit_char (n div 10 mod 10), digit_char (n mod 10)]"
    using a b by (simp add: is_digit_digit_char)
  have "nat_of_digits [digit_char (n div 100), digit_char (n div 10 mod 10), digit_char (n mod 10)]
      = 10 * (10 * (n div 100) + n div 10 mod 10) + n mod 10"
    using a b by (simp add: nat_of_digits_def digit_val_digit_char)
  also have "\<dots> = n"
  proof -
    have "n div 100 = n div 10 div 10" by (simp add: div_mult2_eq[symmetric])
    then show ?thesis by presburger
  qed
  finally show "nat_of_digits [digit_char (n div 100), digit_char (n div 10 mod 10), digit_char (n mod 10)] = n" .
qed

lemma is_digit_0: "is_digit (CHR ''0'')"
  by (simp add: is_digit_def)

lemma fmt_minutes_nonneg:
  assumes "0 \<le> m"
  shows "\<exists>ds. zero_pad 2 (fmt_d m) = ds \<and> ds \<noteq> [] \<and> list_all is_digit ds
            \<and> nat_of_digits ds = nat m"
proof -
  obtain c r where cr: "digits_of (nat m) = c # r" "is_digit c"
    using digits_of_not_Nil[of "nat m"] digits_of_all_digits[of "nat m"]
    by (cases "digits_of (nat m)") auto
  have f: "fmt_d m = digits_of (nat m)" using assms by (simp add: fmt_d_def)
  have z: "zero_pad 2 (fmt_d m)
      = replicate (2 - length (digits_of (nat m))) (CHR ''0'') @ digits_of (nat m)"
    unfolding f by (rule zero_pad_digit_head[OF cr])
  show ?thesis
    unfolding z
    using digits_of_all_digits[of "nat m"] digits_of_not_Nil[of "nat m"]
    by (auto simp: nat_of_digits_zeros nat_of_digits_digits_of list_all_iff is_digit_0)
qed

lemma fmt_minutes_neg:
  assumes "m < 0"
  shows "zero_pad 2 (fmt_d m) = CHR ''-'' # digits_of (nat (- m))"
proof -
  have "length (digits_of (nat (- m))) \<ge> 1"
    using digits_of_not_Nil[of "nat (- m)"] by (cases "digits_of (nat (- m))") auto
  then show ?thesis using assms by (simp add: fmt_d_def zero_pad_def)
qed

lemma remove_char_absent: "c \<notin> set s \<Longrightarrow> remove_char c s = s"
  by (auto simp: remove_char_def filter_id_conv)

lemma digits_no_special:
  assumes "list_all is_digit ds"
  shows "CHR '':'' \<notin> set ds" "CHR ''.'' \<notin> set ds"
  using assms is_digit_not_special(1,2) by (auto simp: list_all_iff)

lemma surrogate_of_parts:
  assumes "list_all is_digit ms" "list_all is_digit [a, b, c]"
  shows "remove_char (CHR ''.'') (remove_char (CHR '':'') (pre @ ms @ CHR '':'' # [a, b, CHR ''.'', c]))
           = remove_char (CHR ''.'') (remove_char (CHR '':'') pre) @ ms @ [a, b, c]"
proof -
  have "\<forall>x\<in>set ms. x \<noteq> CHR '':'' \<and> x \<noteq> CHR ''.''"
    using digits_no_special[OF assms(1)] by auto
  then have m: "filter (\<lambda>x. x \<noteq> CHR ''.'') (filter (\<lambda>x. x \<noteq> CHR '':'') ms) = ms"
    by (simp add: filter_id_conv)
  have abc: "a \<noteq> CHR '':''" "a \<noteq> CHR ''.''" "b \<noteq> CHR '':''" "b \<noteq> CHR ''.''"
    "c \<noteq> CHR '':''" "c \<noteq> CHR ''.''"
    using assms(2) is_digit_not_special(1,2) by auto
  show ?thesis using m abc by (simp add: remove_char_def)
qed

lemma surrogate_fmt_time:
  "py_float (remove_char (CHR ''.'') (remove_char (CHR '':'') (fmt_time t))) = Some (time_key t)"
proof -
  define m where "m = \<lfloor>t / 60\<rfloor>"
  define s where "s = t - of_int m * 60"
  define n where "n = nat (round_half_even (s * 10))"
  have sr: "0 \<le> s" "s < 60" using seconds_range[of t] by (simp_all add: s_def m_def)
  have rn: "0 \<le> round_half_even (s * 10)"
    using round_half_even_range[of "s * 10" 600] sr by simp
  then have n_int: "int n = round_half_even (s * 10)" by (simp add: n_def)
  note sec = fmt_seconds(1)[OF sr, folded n_def]
  note n600 = fmt_seconds(2)[OF sr, folded n_def]
  let ?d3 = "[digit_char (n div 100), digit_char (n div 10 mod 10), digit_char (n mod 10)]"
  have n1000: "n < 1000" using n600 by simp
  have d3: "nat_of_digits ?d3 = n" "list_all is_digit ?d3"
    using nat_of_three_digits[OF n1000] by simp_all
  have ft: "fmt_time t = zero_pad 2 (fmt_d m) @ CHR '':'' #
      [digit_char (n div 100), digit_char (n div 10 mod 10), CHR ''.'', digit_char (n mod 10)]"
  proof -
    have "fmt_time t = zero_pad 2 (fmt_d m) @ CHR '':'' # zero_pad 4 (fmt_f 1 s)"
      by (simp only: fmt_time_def Let_def m_def s_def)
    then show ?thesis by (simp only: sec)
  qed
  have tk: "time_key t = (if m < 0 then of_int (m * 1000 - int n) else of_int (m * 1000 + int n))"
    by (simp only: time_key_def Let_def m_def s_def n_int[unfolded s_def m_def])
  show ?thesis
  proof (cases "m < 0")
    case True
    let ?ms = "digits_of (nat (- m))"
    have msd: "list_all is_digit ?ms" "?ms \<noteq> []"
      by (rule digits_of_all_digits, rule digits_of_not_Nil)
    have "remove_char (CHR ''.'') (remove_char (CHR '':'') (fmt_time t))
        = remove_char (CHR ''.'') (remove_char (CHR '':'') [CHR ''-''] ) @ ?ms @ ?d3"
      unfolding ft fmt_minutes_neg[OF True]
      using surrogate_of_parts[OF msd(1) d3(2), of "[CHR ''-'']"] by simp
    also have "\<dots> = CHR ''-'' # (?ms @ ?d3)" by (simp add: remove_char_def)
    finally have str: "remove_char (CHR ''.'') (remove_char (CHR '':'') (fmt_time t))
        = CHR ''-'' # (?ms @ ?d3)" .
    have all: "list_all is_digit (?ms @ ?d3)" "?ms @ ?d3 \<noteq> []"
      using msd d3(2) by simp_all
    have val: "nat_of_digits (?ms @ ?d3) = nat (- m) * 1000 + n"
      by (simp add: nat_of_digits_append nat_of_digits_digits_of d3(1))
    have "py_float (CHR ''-'' # (?ms @ ?d3)) = Some (- of_nat (nat (- m) * 1000 + n))"
      using py_float_minus_digits[OF all(2) all(1)] val by simp
    also have "- (of_nat (nat (- m) * 1000 + n) :: rat) = of_int (m * 1000 - int n)"
      using True by simp
    finally show ?thesis unfolding str tk using True by simp
  next
    case False
    then have m0: "0 \<le> m" by simp
    from fmt_minutes_nonneg[OF m0] obtain ms where
      ms: "zero_pad 2 (fmt_d m) = ms" "ms \<noteq> []" "list_all is_digit ms" "nat_of_digits ms = nat m"
      by blast
    have "remove_char (CHR ''.'') (remove_char (CHR '':'') (fmt_time t)) = ms @ ?d3"
      unfolding ft ms(1)
      using surrogate_of_parts[OF ms(3) d3(2), of "[]"] by (simp add: remove_char_def)
    then have str: "remove_char (CHR ''.'') (remove_char (CHR '':'') (fmt_time t)) = ms @ ?d3" .
    have all: "list_all is_digit (ms @ ?d3)" "ms @ ?d3 \<noteq> []"
      using ms d3(2) by simp_all
    have val: "nat_of_digits (ms @ ?d3) = nat m * 1000 + n"
      by (simp add: nat_of_digits_append ms(4) d3(1))
    have "py_float (ms @ ?d3) = Some (of_nat (nat m * 1000 + n))"
      using py_float_digits[OF all(2) all(1)] val by simp
    also have "(of_nat (nat m * 1000 + n) :: rat) = of_int (m * 1000 + int n)"
      using m0 by simp
    finally show ?thesis unfolding str tk using False by simp
  qed
qed

lemma time_key_mono:
  assumes "0 \<le> t1" "t1 \<le> t2"
  shows "time_key t1 \<le> time_key t2"
proof -
  define m1 where "m1 = \<lfloor>t1 / 60\<rfloor>"
  define m2 where "m2 = \<lfloor>t2 / 60\<rfloor>"
  define n1 where "n1 = round_half_even ((t1 - of_int m1 * 60) * 10)"
  define n2 where "n2 = round_half_even ((t2 - of_int m2 * 60) * 10)"
  have m1: "0 \<le> m1" using assms(1) by (simp add: m1_def)
  have m12: "m1 \<le> m2" unfolding m1_def m2_def using assms(2) by (intro floor_mono) simp
  have r1: "0 \<le> n1 \<and> n1 \<le> 600"
    unfolding n1_def m1_def using seconds_range[of t1] by (intro round_half_even_range) auto
  have r2: "0 \<le> n2 \<and> n2 \<le> 600"
    unfolding n2_def m2_def using seconds_range[of t2] by (intro round_half_even_range) auto
  have k1: "time_key t1 = of_int (m1 * 1000 + n1)"
  proof -
    have "time_key t1 = (if m1 < 0 then of_int (m1 * 1000 - n1) else of_int (m1 * 1000 + n1))"
      by (simp only: time_key_def Let_def m1_def n1_def)
    then show ?thesis using m1 by simp
  qed
  have k2: "time_key t2 = of_int (m2 * 1000 + n2)"
  proof -
    have "time_key t2 = (if m2 < 0 then of_int (m2 * 1000 - n2) else of_int (m2 * 1000 + n2))"
      by (simp only: time_key_def Let_def m2_def n2_def)
    then show ?thesis using m1 m12 by simp
  qed
  have "m1 * 1000 + n1 \<le> m2 * 1000 + n2"
  proof (cases "m1 = m2")
    case True
    have "(t1 - of_int m1 * 60) * 10 \<le> (t2 - of_int m2 * 60) * 10"
      using assms(2) True by simp
    then have "n1 \<le> n2" unfolding n1_def n2_def by (rule round_half_even_mono)
    with True show ?thesis by simp
  next
    case False
    with m12 have "m1 + 1 \<le> m2" by simp
    with r1 r2 show ?thesis by linarith
  qed
  then show ?thesis unfolding k1 k2 by simp
qed

subsection \<open>The sort and the order of emission\<close>

lemma step_times:
  assumes "process_event r st (t, kind, arg) = Inr st'"
  shows "\<exists>new. violations st' = violations st @ new \<and> (\<forall>v\<in>set new. vtime v = fmt_time t)"
proof -
  from assms have "known_kind kind"
    using process_event_unknown_kind[of kind r st t arg] by (cases "known_kind kind") auto
  then consider "kind = ''SPEED''" | "kind = ''FOLLOW_DISTANCE''"
    | "kind = ''LANE_CHANGE''" | "kind = ''STOP_SIGN_DETECTED''"
    by (auto simp: known_kind_def)
  then show ?thesis
  proof cases
    case 1
    with assms obtain v where v: "py_float arg = Some v"
      and st': "st' = check_rolling_stop r t v
           (if max_speed r < v then append_violation (speeding r t v) st else st)"
      by (auto simp: process_event_SPEED split: option.splits)
    show ?thesis unfolding st'
      by (auto simp: violations_check_rolling_stop append_violation_def speeding_def
            rolling_stop_def split: option.splits)
  next
    case 2
    with assms show ?thesis
      by (auto simp: process_event_FOLLOW append_violation_def tailgating_def
            split: option.splits if_splits)
  next
    case 3
    with assms show ?thesis
      by (auto simp: process_event_LANE append_violation_def unsafe_lane_change_def
            split: option.splits if_splits)
  next
    case 4
    with assms show ?thesis by (auto simp: process_event_STOP)
  qed
qed

lemma run_times:
  assumes "run_events r st es = Inr st'" "sorted (map fst es)" "\<forall>e\<in>set es. lo \<le> fst e"
  shows "\<exists>ts. map vtime (drop (length (violations st)) (violations st')) = map fmt_time ts
           \<and> take (length (violations st)) (violations st') = violations st
           \<and> length (violations st) \<le> length (violations st')
           \<and> sorted ts \<and> (\<forall>t\<in>set ts. lo \<le> t)"
  using assms
proof (induction es arbitrary: st lo)
  case Nil
  then show ?case by (auto intro: exI[of _ "[]"])
next
  case (Cons e es)
  obtain t kind arg where e: "e = (t, kind, arg)" by (cases e) auto
  from Cons.prems(1) obtain st1 where s1: "process_event r st (t, kind, arg) = Inr st1"
    and rest: "run_events r st1 es = Inr st'"
    unfolding e by (auto split: sum.splits)
  from step_times[OF s1] obtain new where
    new: "violations st1 = violations st @ new" "\<forall>v\<in>set new. vtime v = fmt_time t" by blast
  have later: "\<forall>e\<in>set es. t \<le> fst e" and srt: "sorted (map fst es)"
    using Cons.prems(2) unfolding e by auto
  from Cons.IH[OF rest srt later] obtain ts where
    ts: "map vtime (drop (length (violations st1)) (violations st')) = map fmt_time ts"
      "take (length (violations st1)) (violations st') = violations st1"
      "length (violations st1) \<le> length (violations st')"
      "sorted ts" "\<forall>x\<in>set ts. t \<le> x" by blast
  define rest_vs where "rest_vs = drop (length (violations st1)) (violations st')"
  have whole: "violations st' = violations st @ new @ rest_vs"
    using ts(2) new(1) unfolding rest_vs_def
    by (metis append_assoc append_take_drop_id)
  have lo: "lo \<le> t" using Cons.prems(3) unfolding e by simp
  let ?ts = "replicate (length new) t @ ts"
  have "map vtime (new @ rest_vs) = map fmt_time ?ts"
    using new(2) ts(1) unfolding rest_vs_def by (simp add: map_replicate_const[symmetric] cong: map_cong)
  moreover have "sorted ?ts" using ts(4,5) by (auto simp: sorted_append)
  moreover have "\<forall>x\<in>set ?ts. lo \<le> x" using lo ts(5) by auto
  ultimately show ?case unfolding whole by (intro exI[of _ ?ts]) simp
qed

lemma sort_sorted_keys:
  assumes "map sort_surrogate vs = map Some ks" "sorted ks"
  shows "sort_violations vs = Inr vs"
proof -
  have len: "length ks = length vs" using assms(1) by (metis length_map)
  have th: "those (map sort_surrogate vs) = Some ks"
    using assms(1) by (simp add: those_eq_Some)
  have "sorted (map fst (zip ks vs))" using assms(2) len by simp
  then have "sort_key fst (zip ks vs) = zip ks vs" by (rule sort_key_id_if_sorted)
  then show ?thesis using len by (simp add: sort_violations_def th)
qed

lemma surrogate_of_time:
  "vtime v = fmt_time t \<Longrightarrow> sort_surrogate v = Some (time_key t)"
  by (simp add: sort_surrogate_def surrogate_fmt_time)

lemma sorted_map_time_key:
  assumes "sorted ts" "\<forall>t\<in>set ts. 0 \<le> t"
  shows "sorted (map time_key ts)"
  using assms by (induction ts) (auto intro: time_key_mono)

lemma detect_violations_compose:
  "read_rules sc = Inr r \<Longrightarrow> run_events r init_state es = Inr st \<Longrightarrow>
   sort_violations (violations st) = Inr vs \<Longrightarrow> detect_violations sc es = Inr vs"
  by (simp add: detect_violations_def)

lemma time_key_minus_30: "time_key (- 30) = - 1300"
  by code_simp
lemma time_key_minus_10: "time_key (- 10) = - 1500"
  by code_simp

text \<open>
  C10, as stated, fails for timestamps below zero: the minutes are then negative, the
  key carries their sign, and within one minute a later time has a smaller key. The
  two events below are in ascending time order, and the sort swaps their violations.
\<close>

theorem sort_permutes_negative_times_counterexample:
  "sorted (map fst [(- 30 :: rat, ''FOLLOW_DISTANCE'', ''5.0''), (- 10, ''SPEED'', ''70.0'')])
   \<and> run_events \<lparr>max_speed = 60, min_follow = 10, stop_wait = 3\<rparr> init_state
        [(- 30, ''FOLLOW_DISTANCE'', ''5.0''), (- 10, ''SPEED'', ''70.0'')]
      = Inr \<lparr>last_follow = Some 5, stop_detect_time = None,
             violations = [\<lparr>vtype = ''TAILGATING'', vtime = ''-1:30.0'', details = ''5.0 m < 10.0 m''\<rparr>,
                           \<lparr>vtype = ''SPEEDING'', vtime = ''-1:50.0'', details = ''70.0 mph in 60 mph zone''\<rparr>]\<rparr>
   \<and> detect_violations
        \<lparr>name = None, road_rules = Some [(''max_speed'', NInt 60), (''min_follow_distance'', NInt 10), (''stop_sign_wait'', NInt 3)]\<rparr>
        [(- 30, ''FOLLOW_DISTANCE'', ''5.0''), (- 10, ''SPEED'', ''70.0'')]
      = Inr [\<lparr>vtype = ''SPEEDING'', vtime = ''-1:50.0'', details = ''70.0 mph in 60 mph zone''\<rparr>,
             \<lparr>vtype = ''TAILGATING'', vtime = ''-1:30.0'', details = ''5.0 m < 10.0 m''\<rparr>]"
proof -
  let ?sc = "\<lparr>name = None, road_rules = Some [(''max_speed'', NInt 60), (''min_follow_distance'', NInt 10), (''stop_sign_wait'', NInt 3)]\<rparr>"
  let ?r = "\<lparr>max_speed = 60, min_follow = 10, stop_wait = 3\<rparr>"
  let ?es = "[(- 30 :: rat, ''FOLLOW_DISTANCE'', ''5.0''), (- 10, ''SPEED'', ''70.0'')]"
  let ?v1 = "\<lparr>vtype = ''TAILGATING'', vtime = ''-1:30.0'', details = ''5.0 m < 10.0 m''\<rparr>"
  let ?v2 = "\<lparr>vtype = ''SPEEDING'', vtime = ''-1:50.0'', details = ''70.0 mph in 60 mph zone''\<rparr>"
  have rr: "read_rules ?sc = Inr ?r" by code_simp
  have run: "run_events ?r init_state ?es
      = Inr \<lparr>last_follow = Some 5, stop_detect_time = None, violations = [?v1, ?v2]\<rparr>"
    by code_simp
  have f1: "vtime ?v1 = fmt_time (- 30)" by code_simp
  have f2: "vtime ?v2 = fmt_time (- 10)" by code_simp
  have k1: "sort_surrogate ?v1 = Some (- 1300)"
    using surrogate_of_time[OF f1] by (simp only: time_key_minus_30)
  have k2: "sort_surrogate ?v2 = Some (- 1500)"
    using surrogate_of_time[OF f2] by (simp only: time_key_minus_10)
  have srt: "sort_violations [?v1, ?v2] = Inr [?v2, ?v1]"
    by (simp add: sort_violations_def k1 k2)
  have det: "detect_violations ?sc ?es = Inr [?v2, ?v1]"
    by (rule detect_violations_compose[OF rr run]) (simp add: srt)
  have s: "sorted (map fst ?es)" by simp
  show ?thesis by (intro conjI s run det)
qed

text \<open>
  C10, amended. For an event sequence whose timestamps are non-negative, below \<open>2^53\<close>
  seconds and non-decreasing, \<^verbatim>\<open>detect_violations\<close> returns the violations exactly in
  the order in which the loop emitted them: on these times the key of the sort is
  monotone in the timestamp, so the emitted list is already sorted and the stable sort
  leaves it as it is.

  The bound is where the exact floor and difference of \<open>fmt_time\<close> are those of the
  float operations of \<^verbatim>\<open>_fmt_time\<close>: for a double \<open>t\<close> with \<open>0 \<le> t < 2^53\<close> the quotient
  \<^verbatim>\<open>t // 60\<close>, the product \<^verbatim>\<open>m * 60\<close> and the difference \<^verbatim>\<open>t - m * 60\<close> are computed
  without rounding. (The key that \<^verbatim>\<open>float\<close> reads from the digits is then the double
  nearest to the exact key, and rounding to the nearest double keeps the order.) Beyond
  the bound they round, the seconds can leave the range from 0 to 60, and the claim no
  longer holds of the code.

  The float \<^verbatim>\<open>-0.0\<close>, which the code formats with a sign on its seconds, has no
  counterpart among the rationals and is not covered; \<^verbatim>\<open>parse_time\<close> never returns it.
\<close>

theorem sort_keeps_emission_order:
  assumes "read_rules sc = Inr r" "run_events r init_state events = Inr st"
    "sorted (map fst events)" "\<forall>e\<in>set events. 0 \<le> fst e \<and> fst e < 2 ^ 53"
  shows "detect_violations sc events = Inr (violations st)"
proof -
  have nonneg: "\<forall>e\<in>set events. 0 \<le> fst e" using assms(4) by blast
  from run_times[OF assms(2,3) nonneg] obtain ts where
    ts: "map vtime (violations st) = map fmt_time ts" "sorted ts" "\<forall>t\<in>set ts. 0 \<le> t"
    by (auto simp: init_state_def)
  have len: "length ts = length (violations st)" using ts(1) by (metis length_map)
  have "map sort_surrogate (violations st) = map Some (map time_key ts)"
  proof (rule nth_equalityI)
    show "length (map sort_surrogate (violations st)) = length (map Some (map time_key ts))"
      using len by simp
  next
    fix i assume "i < length (map sort_surrogate (violations st))"
    then have i: "i < length (violations st)" "i < length ts" using len by simp_all
    from ts(1) have "map vtime (violations st) ! i = map fmt_time ts ! i" by simp
    with i have "vtime (violations st ! i) = fmt_time (ts ! i)" by simp
    from surrogate_of_time[OF this] i
    show "map sort_surrogate (violations st) ! i = map Some (map time_key ts) ! i" by simp
  qed
  moreover have "sorted (map time_key ts)" using ts(2,3) by (rule sorted_map_time_key)
  ultimately have "sort_violations (violations st) = Inr (violations st)"
    by (rule sort_sorted_keys)
  then show ?thesis using assms(1,2) by (simp add: detect_violations_def)
qed


theorem sort_keeps_emission_order_witness:
  "read_rules \<lparr>name = None, road_rules = Some [(''max_speed'', NInt 60), (''min_follow_distance'', NInt 10), (''stop_sign_wait'', NInt 3)]\<rparr>
      = Inr \<lparr>max_speed = 60, min_follow = 10, stop_wait = 3\<rparr>
   \<and> run_events \<lparr>max_speed = 60, min_follow = 10, stop_wait = 3\<rparr> init_state
        [(1, ''FOLLOW_DISTANCE'', ''5.0''), (1, ''LANE_CHANGE'', ''LEFT''), (5, ''SPEED'', ''70.0'')]
      = Inr \<lparr>last_follow = Some 5, stop_detect_time = None,
             violations = [\<lparr>vtype = ''TAILGATING'', vtime = ''00:01.0'', details = ''5.0 m < 10.0 m''\<rparr>,
                           \<lparr>vtype = ''UNSAFE_LANE_CHANGE'', vtime = ''00:01.0'', details = ''follow 5.0 m < 10.0 m''\<rparr>,
                           \<lparr>vtype = ''SPEEDING'', vtime = ''00:05.0'', details = ''70.0 mph in 60 mph zone''\<rparr>]\<rparr>
   \<and> sorted (map fst [(1 :: rat, ''FOLLOW_DISTANCE'', ''5.0''), (1, ''LANE_CHANGE'', ''LEFT''), (5, ''SPEED'', ''70.0'')])
   \<and> list_all (\<lambda>e. 0 \<le> fst e \<and> fst e < 2 ^ 53)
        [(1 :: rat, ''FOLLOW_DISTANCE'', ''5.0''), (1, ''LANE_CHANGE'', ''LEFT''), (5, ''SPEED'', ''70.0'')]
   \<and> detect_violations
        \<lparr>name = None, road_rules = Some [(''max_speed'', NInt 60), (''min_follow_distance'', NInt 10), (''stop_sign_wait'', NInt 3)]\<rparr>
        [(1, ''FOLLOW_DISTANCE'', ''5.0''), (1, ''LANE_CHANGE'', ''LEFT''), (5, ''SPEED'', ''70.0'')]
      = Inr (violations \<lparr>last_follow = Some 5, stop_detect_time = None,
             violations = [\<lparr>vtype = ''TAILGATING'', vtime = ''00:01.0'', details = ''5.0 m < 10.0 m''\<rparr>,
                           \<lparr>vtype = ''UNSAFE_LANE_CHANGE'', vtime = ''00:01.0'', details = ''follow 5.0 m < 10.0 m''\<rparr>,
                           \<lparr>vtype = ''SPEEDING'', vtime = ''00:05.0'', details = ''70.0 mph in 60 mph zone''\<rparr>]\<rparr>)"
proof -
  let ?sc = "\<lparr>name = None, road_rules = Some [(''max_speed'', NInt 60), (''min_follow_distance'', NInt 10), (''stop_sign_wait'', NInt 3)]\<rparr>"
  let ?r = "\<lparr>max_speed = 60, min_follow = 10, stop_wait = 3\<rparr>"
  let ?es = "[(1 :: rat, ''FOLLOW_DISTANCE'', ''5.0''), (1, ''LANE_CHANGE'', ''LEFT''), (5, ''SPEED'', ''70.0'')]"
  let ?st = "\<lparr>last_follow = Some 5, stop_detect_time = None,
             violations = [\<lparr>vtype = ''TAILGATING'', vtime = ''00:01.0'', details = ''5.0 m < 10.0 m''\<rparr>,
                           \<lparr>vtype = ''UNSAFE_LANE_CHANGE'', vtime = ''00:01.0'', details = ''follow 5.0 m < 10.0 m''\<rparr>,
                           \<lparr>vtype = ''SPEEDING'', vtime = ''00:05.0'', details = ''70.0 mph in 60 mph zone''\<rparr>]\<rparr>"
  have a: "read_rules ?sc = Inr ?r" by code_simp
  have b: "run_events ?r init_state ?es = Inr ?st" by code_simp
  have c: "sorted (map fst ?es)" by simp
  have d: "\<forall>e\<in>set ?es. 0 \<le> fst e \<and> fst e < 2 ^ 53" by simp
  have d': "list_all (\<lambda>e. 0 \<le> fst e \<and> fst e < 2 ^ 53) ?es" by simp
  show ?thesis
    by (intro conjI a b c d' sort_keeps_emission_order[OF a b c d])
qed

subsection \<open>The round trip of the time codec\<close>

lemma py_int_digits:
  assumes "ds \<noteq> []" "list_all is_digit ds"
  shows "py_int ds = Some (int (nat_of_digits ds))"
proof -
  from assms have h: "is_digit (hd ds)" and l: "is_digit (last ds)"
    by (auto simp: list_all_iff)
  have st: "num_strip ds = ds"
    using assms(1) h l by (intro num_strip_id) (auto dest: is_digit_not_num_space)
  obtain c cs where ds: "ds = c # cs" using assms(1) by (cases ds) auto
  with h have c: "is_digit c" by simp
  have ss: "split_sign ds = (False, ds)"
    unfolding ds using is_digit_not_special[OF c] by simp
  show ?thesis
    by (simp add: py_int_def st ss digit_run_digits[OF assms] run_value_digits[OF assms(2)])
qed

lemma two_digit_minutes_no_overflow:
  assumes "k < (100 :: nat)"
  shows "\<not> float_overflow (int k * 60)"
proof -
  define n where "n = int k"
  have "0 \<le> n" "n < 100" using assms by (simp_all add: n_def)
  then have "\<bar>n * 60\<bar> < 6000" by linarith
  moreover have "(6000 :: int) \<le> 2 ^ 1024 - 2 ^ 970" by simp
  ultimately show ?thesis unfolding float_overflow_def n_def by linarith
qed

lemma small_no_overflow:
  assumes "\<bar>n\<bar> < 10 ^ 300"
  shows "\<not> float_overflow n"
proof -
  have "(10 :: int) ^ 300 \<le> 2 ^ 1024 - 2 ^ 970" by simp
  with assms show ?thesis unfolding float_overflow_def by linarith
qed

lemma py_float_two_one:
  assumes "is_digit a" "is_digit b" "is_digit d"
  shows "py_float [a, b, CHR ''.'', d]
           = Some (of_nat (10 * digit_val a + digit_val b) + of_nat (digit_val d) / 10)"
proof -
  have nd: "\<not> (is_digit (CHR ''.'') \<or> CHR ''.'' = CHR ''_'')" by (simp add: is_digit_def)
  have "\<not> is_num_space a" "\<not> is_num_space d" using assms is_digit_not_num_space by auto
  then have st: "num_strip [a, b, CHR ''.'', d] = [a, b, CHR ''.'', d]"
    by (intro num_strip_id) simp_all
  have ss: "split_sign [a, b, CHR ''.'', d] = (False, [a, b, CHR ''.'', d])"
    using is_digit_not_special[OF assms(1)] by simp
  have tw: "takeWhile (\<lambda>c. is_digit c \<or> c = CHR ''_'') [a, b, CHR ''.'', d] = [a, b]"
    "dropWhile (\<lambda>c. is_digit c \<or> c = CHR ''_'') [a, b, CHR ''.'', d] = [CHR ''.'', d]"
    using assms(1,2) nd by simp_all
  have r1: "digit_run [a, b]" "digit_run [d]"
    using assms by (simp_all add: digit_run_digits)
  have v1: "run_value [a, b] = 10 * digit_val a + digit_val b" "run_value [d] = digit_val d"
    using assms by (simp_all add: run_value_def nat_of_digits_def)
  have fl: "length (filter is_digit [d]) = 1" using assms(3) by simp
  have "py_float [a, b, CHR ''.'', d]
      = Some (1 * (of_nat (run_value [a, b]) + of_nat (run_value [d]) / 10 ^ length (filter is_digit [d])))"
    unfolding py_float_def st ss by (simp only: prod.case Let_def tw list.case r1 if_False) simp
  then show ?thesis by (simp only: v1 fl) simp
qed

lemma fmt_minutes_two:
  assumes "k < 100"
  shows "zero_pad 2 (fmt_d (int k)) = [digit_char (k div 10), digit_char (k mod 10)]"
proof -
  obtain c r where cr: "digits_of k = c # r" "is_digit c"
    using digits_of_not_Nil[of k] digits_of_all_digits[of k]
    by (cases "digits_of k") auto
  have f: "fmt_d (int k) = digits_of k" by (simp add: fmt_d_def)
  have "zero_pad 2 (fmt_d (int k)) = replicate (2 - length (digits_of k)) (CHR ''0'') @ digits_of k"
    unfolding f by (rule zero_pad_digit_head[OF cr])
  then show ?thesis by (simp only: pad_two_digits[OF assms])
qed

lemma three_digit_parts:
  fixes c d e :: nat
  assumes "c < 10" "d < 10" "e < 10"
  shows "(100 * c + 10 * d + e) div 100 = c" "(100 * c + 10 * d + e) div 10 mod 10 = d"
    "(100 * c + 10 * d + e) mod 10 = e"
proof -
  have "10 * d + e < 100" using assms by linarith
  then have "(10 * d + e) div 100 = 0" by simp
  moreover have "100 * c + 10 * d + e = c * 100 + (10 * d + e)" by simp
  ultimately show "(100 * c + 10 * d + e) div 100 = c"
    by (simp only: div_mult_self3)
  have "(100 * c + 10 * d + e) div 10 = 10 * c + d"
  proof -
    have "100 * c + 10 * d + e = (10 * c + d) * 10 + e" by simp
    then have "(100 * c + 10 * d + e) div 10 = (10 * c + d) + e div 10"
      by (simp only: div_mult_self3) 
    then show ?thesis using assms(3) by simp
  qed
  then show "(100 * c + 10 * d + e) div 10 mod 10 = d" using assms(2) by simp
  have "100 * c + 10 * d + e = (10 * c + d) * 10 + e" by simp
  then have "(100 * c + 10 * d + e) mod 10 = e mod 10" by (simp only: mod_mult_self3)
  then show "(100 * c + 10 * d + e) mod 10 = e" using assms(3) by simp
qed

lemma two_digit_parts:
  fixes a b :: nat
  assumes "b < 10"
  shows "(10 * a + b) div 10 = a" "(10 * a + b) mod 10 = b"
  using assms by simp_all

lemma floor_minutes:
  fixes s :: rat
  assumes "0 \<le> s" "s < 60"
  shows "\<lfloor>(of_int M * 60 + s) / 60\<rfloor> = M"
proof (rule floor_unique)
  have e: "(of_int M * 60 + s) / 60 = of_int M + s / 60" by (simp add: add_divide_distrib)
  have "0 \<le> s / 60" "s / 60 < 1" using assms by simp_all
  then show "of_int M \<le> (of_int M * 60 + s) / 60" "(of_int M * 60 + s) / 60 < of_int M + 1"
    unfolding e by simp_all
qed

lemma seconds_value:
  fixes c d e :: nat
  shows "((of_nat (10 * c + d) :: rat) + of_nat e / 10) * 10 = of_int (int (100 * c + 10 * d + e))"
  by (simp add: algebra_simps)

lemma fmt_time_canonical:
  assumes "a < 10" "b < 10" "c < 10" "d < 10" "e < 10" "10 * c + d < 60"
  shows "fmt_time (of_int (int (10 * a + b)) * 60 + (of_nat (10 * c + d) + of_nat e / 10))
           = [digit_char a, digit_char b, CHR '':'', digit_char c, digit_char d, CHR ''.'', digit_char e]"
proof -
  define M where "M = 10 * a + b"
  define s :: rat where "s = of_nat (10 * c + d) + of_nat e / 10"
  define t :: rat where "t = of_int (int M) * 60 + s"
  have s10: "s * 10 = of_int (int (100 * c + 10 * d + e))"
    unfolding s_def by (rule seconds_value)
  have s0: "0 \<le> s" by (simp add: s_def)
  have "100 * c + 10 * d + e < 600" using assms(5,6) by linarith
  then have "(of_int (int (100 * c + 10 * d + e)) :: rat) < of_int 600"
    by (simp only: of_int_less_iff)
  then have "s * 10 < 600" unfolding s10 by simp
  then have s60: "s < 60" by simp
  have fl: "\<lfloor>t / 60\<rfloor> = int M"
    unfolding t_def by (rule floor_minutes[OF s0 s60])
  have sec_eq: "t - of_int (int M) * 60 = s" by (simp add: t_def)
  have n: "nat (round_half_even (s * 10)) = 100 * c + 10 * d + e"
    unfolding s10 round_half_even_of_int by simp
  have M100: "M < 100" using assms(1,2) unfolding M_def by linarith
  have Md: "M div 10 = a" "M mod 10 = b"
    unfolding M_def using two_digit_parts[OF assms(2), of a] by simp_all
  note nd = three_digit_parts[OF assms(3,4,5)]
  have "fmt_time t = zero_pad 2 (fmt_d (int M)) @ CHR '':'' # zero_pad 4 (fmt_f 1 s)"
    by (simp only: fmt_time_def Let_def fl sec_eq)
  also have "zero_pad 2 (fmt_d (int M)) = [digit_char a, digit_char b]"
    by (simp only: fmt_minutes_two[OF M100] Md)
  also have "zero_pad 4 (fmt_f 1 s) = [digit_char c, digit_char d, CHR ''.'', digit_char e]"
    by (simp only: fmt_seconds(1)[OF s0 s60] n nd)
  finally have "fmt_time t
      = [digit_char a, digit_char b, CHR '':'', digit_char c, digit_char d, CHR ''.'', digit_char e]"
    by simp
  then show ?thesis by (simp only: t_def s_def M_def)
qed

text \<open>
  C7, as stated, fails. \<^verbatim>\<open>"00:75.0"\<close> is accepted, its minutes are below 60 and its
  seconds have one decimal digit, but 75 seconds are written back as \<^verbatim>\<open>"01:15.0"\<close>;
  and \<^verbatim>\<open>"1:02.5"\<close>, the form of the examples in the docstring of \<^verbatim>\<open>parse_time\<close>, comes
  back with its minutes padded, as \<^verbatim>\<open>"01:02.5"\<close>.
\<close>

theorem time_roundtrip_counterexample:
  "parse_time ''00:75.0'' = Inr 75 \<and> py_int (minutes_part ''00:75.0'') = Some 0
   \<and> one_decimal_digit (seconds_part ''00:75.0'')
   \<and> fmt_time 75 = ''01:15.0'' \<and> fmt_time 75 \<noteq> ''00:75.0''
   \<and> parse_time ''1:02.5'' = Inr (125 / 2) \<and> py_int (minutes_part ''1:02.5'') = Some 1
   \<and> one_decimal_digit (seconds_part ''1:02.5'')
   \<and> fmt_time (125 / 2) = ''01:02.5'' \<and> fmt_time (125 / 2) \<noteq> ''1:02.5''"
  by code_simp

text \<open>
  C7, amended. For every timestamp of the form \<^verbatim>\<open>MM:SS.s\<close>, with two minute digits, two
  second digits that read below 60 and one decimal digit, \<^verbatim>\<open>parse_time\<close> succeeds
  and \<^verbatim>\<open>_fmt_time\<close> of its result is the timestamp again.
\<close>

theorem time_roundtrip_canonical:
  assumes "canonical_timestamp x"
  shows "\<exists>t. parse_time x = Inr t \<and> fmt_time t = x"
proof -
  from assms obtain m1 m2 s1 s2 d where
    x: "x = [m1, m2, CHR '':'', s1, s2, CHR ''.'', d]"
    and dg: "is_digit m1" "is_digit m2" "is_digit s1" "is_digit s2" "is_digit d"
    and lt: "10 * digit_val s1 + digit_val s2 < 60"
    by (auto simp: canonical_timestamp_def split: list.splits)
  have ne: "m1 \<noteq> CHR '':''" "m2 \<noteq> CHR '':''" "s1 \<noteq> CHR '':''" "s2 \<noteq> CHR '':''" "d \<noteq> CHR '':''"
    using dg is_digit_not_special(1) by auto
  have sp: "split_on (CHR '':'') x = [[m1, m2], [s1, s2, CHR ''.'', d]]"
    unfolding x using ne by simp
  have pi: "py_int [m1, m2] = Some (int (10 * digit_val m1 + digit_val m2))"
    using py_int_digits[of "[m1, m2]"] dg by (simp add: nat_of_digits_def)
  have pf: "py_float [s1, s2, CHR ''.'', d]
      = Some (of_nat (10 * digit_val s1 + digit_val s2) + of_nat (digit_val d) / 10)"
    by (rule py_float_two_one[OF dg(3,4,5)])
  have "10 * digit_val m1 + digit_val m2 < 100"
    using digit_val_less[OF dg(1)] digit_val_less[OF dg(2)] by linarith
  then have no: "\<not> float_overflow (int (10 * digit_val m1 + digit_val m2) * 60)"
    by (rule two_digit_minutes_no_overflow)
  have pt: "parse_time x = Inr (of_int (int (10 * digit_val m1 + digit_val m2)) * 60
      + (of_nat (10 * digit_val s1 + digit_val s2) + of_nat (digit_val d) / 10))"
    using no by (simp add: parse_time_def sp pi pf)
  have "fmt_time (of_int (int (10 * digit_val m1 + digit_val m2)) * 60
      + (of_nat (10 * digit_val s1 + digit_val s2) + of_nat (digit_val d) / 10))
      = [digit_char (digit_val m1), digit_char (digit_val m2), CHR '':'',
         digit_char (digit_val s1), digit_char (digit_val s2), CHR ''.'', digit_char (digit_val d)]"
    using dg lt by (intro fmt_time_canonical) (simp_all add: digit_val_less)
  also have "\<dots> = x" unfolding x using dg by (simp add: digit_char_digit_val)
  finally show ?thesis using pt by blast
qed

theorem time_roundtrip_canonical_witness:
  "canonical_timestamp ''59:59.9'' \<and> parse_time ''59:59.9'' = Inr (35999 / 10)
   \<and> fmt_time (35999 / 10) = ''59:59.9''"
proof -
  have c: "canonical_timestamp ''59:59.9''" by code_simp
  from time_roundtrip_canonical[OF c] obtain t where
    t: "parse_time ''59:59.9'' = Inr t" "fmt_time t = ''59:59.9''" by blast
  have p: "parse_time ''59:59.9'' = Inr (35999 / 10)" by code_simp
  with t(1) have "t = 35999 / 10" by simp
  with t(2) c p show ?thesis by simp
qed

subsection \<open>The returned list is sorted\<close>

text \<open>
  C5. Whenever \<^verbatim>\<open>detect_violations\<close> returns a list, every violation in it has a numeric
  surrogate (its formatted time without colon and point, read as a number by
  \<^verbatim>\<open>float\<close>), the surrogates are in ascending order, and the violations with one and
  the same surrogate stand in the order in which the loop emitted them.

  This is stated for a returned list whose surrogates are below \<open>2^53\<close> in magnitude.
  There the double that \<^verbatim>\<open>float\<close> returns is the number that the digits denote, as it
  is here; longer digit strings are rounded by \<^verbatim>\<open>float\<close>, so that two of them can
  compare equal in the code and differ here.
\<close>

theorem detect_violations_sorted_stable:
  assumes "detect_violations sc events = Inr vs" "list_all exact_key vs"
  shows "\<exists>r st ks. read_rules sc = Inr r \<and> run_events r init_state events = Inr st
           \<and> map sort_surrogate vs = map Some ks \<and> sorted ks
           \<and> (\<forall>k. filter (\<lambda>v. sort_surrogate v = k) vs
                    = filter (\<lambda>v. sort_surrogate v = k) (violations st))"
proof -
  from detect_violations_Inr[OF assms(1)] obtain r st where
    r: "read_rules sc = Inr r" and st: "run_events r init_state events = Inr st"
    and sv: "sort_violations (violations st) = Inr vs" by blast
  from sort_violations_Inr[OF sv] obtain ks0 where
    k0: "map sort_surrogate (violations st) = map Some ks0"
    and vs: "vs = map snd (sort_key fst (zip ks0 (violations st)))" by blast
  let ?ks = "map fst (sort_key fst (zip ks0 (violations st)))"
  have "map sort_surrogate vs = map Some ?ks"
    unfolding vs by (rule keyed_sort_keys[OF k0])
  moreover have "sorted ?ks" by (rule sorted_sort_key)
  moreover have "\<forall>k. filter (\<lambda>v. sort_surrogate v = k) vs
                    = filter (\<lambda>v. sort_surrogate v = k) (violations st)"
    unfolding vs using keyed_sort_stable[OF k0] by blast
  ultimately show ?thesis using r st by blast
qed

theorem detect_violations_sorted_stable_witness:
  "detect_violations
      \<lparr>name = None, road_rules = Some [(''max_speed'', NInt 60), (''min_follow_distance'', NInt 10), (''stop_sign_wait'', NInt 3)]\<rparr>
      [(5, ''SPEED'', ''70.0''), (1, ''FOLLOW_DISTANCE'', ''5.0''), (1, ''LANE_CHANGE'', ''LEFT'')]
     = Inr [\<lparr>vtype = ''TAILGATING'', vtime = ''00:01.0'', details = ''5.0 m < 10.0 m''\<rparr>,
            \<lparr>vtype = ''UNSAFE_LANE_CHANGE'', vtime = ''00:01.0'', details = ''follow 5.0 m < 10.0 m''\<rparr>,
            \<lparr>vtype = ''SPEEDING'', vtime = ''00:05.0'', details = ''70.0 mph in 60 mph zone''\<rparr>]
   \<and> list_all exact_key
        [\<lparr>vtype = ''TAILGATING'', vtime = ''00:01.0'', details = ''5.0 m < 10.0 m''\<rparr>,
         \<lparr>vtype = ''UNSAFE_LANE_CHANGE'', vtime = ''00:01.0'', details = ''follow 5.0 m < 10.0 m''\<rparr>,
         \<lparr>vtype = ''SPEEDING'', vtime = ''00:05.0'', details = ''70.0 mph in 60 mph zone''\<rparr>]
   \<and> (\<exists>ks. map sort_surrogate
              [\<lparr>vtype = ''TAILGATING'', vtime = ''00:01.0'', details = ''5.0 m < 10.0 m''\<rparr>,
               \<lparr>vtype = ''UNSAFE_LANE_CHANGE'', vtime = ''00:01.0'', details = ''follow 5.0 m < 10.0 m''\<rparr>,
               \<lparr>vtype = ''SPEEDING'', vtime = ''00:05.0'', details = ''70.0 mph in 60 mph zone''\<rparr>]
            = map Some ks \<and> sorted ks)"
proof -
  let ?sc = "\<lparr>name = None, road_rules = Some [(''max_speed'', NInt 60), (''min_follow_distance'', NInt 10), (''stop_sign_wait'', NInt 3)]\<rparr>"
  let ?vs = "[\<lparr>vtype = ''TAILGATING'', vtime = ''00:01.0'', details = ''5.0 m < 10.0 m''\<rparr>,
            \<lparr>vtype = ''UNSAFE_LANE_CHANGE'', vtime = ''00:01.0'', details = ''follow 5.0 m < 10.0 m''\<rparr>,
            \<lparr>vtype = ''SPEEDING'', vtime = ''00:05.0'', details = ''70.0 mph in 60 mph zone''\<rparr>]"
  have d: "detect_violations ?sc
      [(5, ''SPEED'', ''70.0''), (1, ''FOLLOW_DISTANCE'', ''5.0''), (1, ''LANE_CHANGE'', ''LEFT'')] = Inr ?vs"
    by code_simp
  have x: "list_all exact_key ?vs" by code_simp
  from detect_violations_sorted_stable[OF d x]
  have "\<exists>ks. map sort_surrogate ?vs = map Some ks \<and> sorted ks" by blast
  with d x show ?thesis by (intro conjI)
qed

end
